theory Spec2Isabelle
  imports Complex_Main
begin

section \<open>The bounded TTL response cache of \<^verbatim>\<open>src/api/index.py\<close>\<close>

text \<open>
  The development embeds the two decorators of \<^verbatim>\<open>src/api/index.py\<close>,
  \<^verbatim>\<open>cache_response\<close> (lines 36-65) and \<^verbatim>\<open>handle_errors\<close> (lines 67-84),
  together with the module-level dictionary \<^verbatim>\<open>_app_cache\<close> they share.

  Modelling decisions:
  \<^item> \<^verbatim>\<open>time.time()\<close> returns a float; clock readings, timestamps and the ttl are
    modelled as \<open>real\<close>. The code only subtracts two readings and compares.
    The reading taken at line 43 is a parameter (\<open>current_time\<close>) of the model.
  \<^item> A Python \<^verbatim>\<open>dict\<close> keeps its keys in insertion order, assigning to a key that is
    present keeps the key's position, and \<^verbatim>\<open>min\<close> returns the first minimal
    element in iteration order. The order therefore decides which entry is evicted
    when timestamps tie, and the dictionary is an association list with pairwise
    distinct keys.
  \<^item> An exception is a value of type \<open>exn\<close>; a call that may raise returns
    \<open>exn + 'v\<close> with \<open>Inl\<close> for the exception. \<open>exn\<close> has the three classes the
    \<^verbatim>\<open>try\<close> statement of \<^verbatim>\<open>handle_errors\<close> tells apart: \<^verbatim>\<open>NotFound\<close>; any other
    subclass of \<^verbatim>\<open>Exception\<close>, with its message; and a \<^verbatim>\<open>BaseException\<close> that is
    not an \<^verbatim>\<open>Exception\<close> (\<^verbatim>\<open>SystemExit\<close>, \<^verbatim>\<open>KeyboardInterrupt\<close>), with its class
    name, which no \<^verbatim>\<open>except\<close> clause of the module catches.
  \<^item> A decorated handler is a black box that acts on an environment \<open>'w env\<close>:
    the log of the module's logger and a world \<open>'w\<close> holding everything else the
    handler may read or write. No handler of the repository writes to
    \<^verbatim>\<open>_app_cache\<close>, so handlers do not receive the dictionary. That the wrapper
    invokes the handler is visible as the handler's effect on the environment.
\<close>

subsection \<open>Exceptions, log, state\<close>

datatype exn = NotFound | OtherException string | NonException string

datatype log_level = INFO | ERROR

record 'w env =
  logged :: "(log_level \<times> string) list"
  world :: 'w

type_synonym 'v dict = "(string \<times> 'v \<times> real) list"

record ('v, 'w) state =
  app_cache :: "'v dict"
  env :: "'w env"

type_synonym ('v, 'w) compute = "'w env \<Rightarrow> (exn + 'v) \<times> 'w env"

definition logger_info :: "string \<Rightarrow> 'w env \<Rightarrow> 'w env" where
  "logger_info msg e = e\<lparr>logged := logged e @ [(INFO, msg)]\<rparr>"

definition logger_error :: "string \<Rightarrow> 'w env \<Rightarrow> 'w env" where
  "logger_error msg e = e\<lparr>logged := logged e @ [(ERROR, msg)]\<rparr>"

subsection \<open>Dictionary operations\<close>

text \<open>\<^verbatim>\<open>d[k] = v\<close>: replaces the value in place when \<open>k\<close> is present, appends otherwise.\<close>

primrec dict_set :: "string \<Rightarrow> 'e \<Rightarrow> (string \<times> 'e) list \<Rightarrow> (string \<times> 'e) list" where
  "dict_set k v [] = [(k, v)]"
| "dict_set k v (p # ps) = (if fst p = k then (k, v) # ps else p # dict_set k v ps)"

text \<open>\<^verbatim>\<open>del d[k]\<close>, for a key that is present (the only use, at line 60).\<close>

primrec dict_del :: "string \<Rightarrow> (string \<times> 'e) list \<Rightarrow> (string \<times> 'e) list" where
  "dict_del k [] = []"
| "dict_del k (p # ps) = (if fst p = k then ps else p # dict_del k ps)"

text \<open>
  \<^verbatim>\<open>min(_app_cache.keys(), key=lambda k: _app_cache[k][1])\<close> (lines 58-59): one pass in
  iteration order that keeps the current best and replaces it only by a strictly smaller
  timestamp. The model walks the entries, which is the keys in order together with what
  the \<^verbatim>\<open>key\<close> function looks up. On an empty dictionary \<^verbatim>\<open>min\<close> raises \<^verbatim>\<open>ValueError\<close>.
\<close>

fun min_by_timestamp :: "string \<times> 'v \<times> real \<Rightarrow> 'v dict \<Rightarrow> string \<times> 'v \<times> real" where
  "min_by_timestamp best [] = best"
| "min_by_timestamp best (e # es) =
     min_by_timestamp (if snd (snd e) < snd (snd best) then e else best) es"

definition py_min_key :: "'v dict \<Rightarrow> exn + string" where
  "py_min_key c =
     (case c of
        [] \<Rightarrow> Inl (OtherException ''min() arg is an empty sequence'')
      | e # es \<Rightarrow> Inr (fst (min_by_timestamp e es)))"

subsection \<open>The wrapper of \<^verbatim>\<open>cache_response\<close>\<close>

text \<open>
  Lines 54-63: store the result, then clean up when the dictionary holds more than 50
  entries.
\<close>

definition store_result ::
  "string \<Rightarrow> 'v \<Rightarrow> real \<Rightarrow> ('v, 'w) state \<Rightarrow> (exn + 'v) \<times> ('v, 'w) state" where
  "store_result cache_key result current_time st =
     (let c1 = dict_set cache_key (result, current_time) (app_cache st) in
      if length c1 > 50 then
        (case py_min_key c1 of
           Inl e \<Rightarrow> (Inl e, st\<lparr>app_cache := c1\<rparr>)
         | Inr oldest_key \<Rightarrow>
             (Inr result,
              \<lparr>app_cache = dict_del oldest_key c1,
               env = logger_info ''Cache cleanup ejecutado'' (env st)\<rparr>))
      else (Inr result, st\<lparr>app_cache := c1\<rparr>))"

text \<open>Lines 52-63: run the handler; an exception leaves before anything is stored.\<close>

definition compute_and_store ::
  "string \<Rightarrow> real \<Rightarrow> ('v, 'w) compute \<Rightarrow> ('v, 'w) state \<Rightarrow> (exn + 'v) \<times> ('v, 'w) state" where
  "compute_and_store cache_key current_time compute st =
     (case compute (env st) of
        (Inl e, env1) \<Rightarrow> (Inl e, st\<lparr>env := env1\<rparr>)
      | (Inr result, env1) \<Rightarrow> store_result cache_key result current_time (st\<lparr>env := env1\<rparr>))"

text \<open>
  Lines 45-63, the body of \<^verbatim>\<open>wrapper\<close> after the key and the clock reading are known.
  This is the operation the specification calls \<^verbatim>\<open>get_or_compute(key, ttl, compute_fn)\<close>;
  \<open>compute\<close> stands for the call \<^verbatim>\<open>f(*args, **kwargs)\<close>.
\<close>

definition get_or_compute ::
  "string \<Rightarrow> real \<Rightarrow> real \<Rightarrow> ('v, 'w) compute \<Rightarrow> ('v, 'w) state \<Rightarrow> (exn + 'v) \<times> ('v, 'w) state" where
  "get_or_compute cache_key ttl current_time compute st =
     (case map_of (app_cache st) cache_key of
        Some (cached_result, timestamp) \<Rightarrow>
          if current_time - timestamp < ttl
          then (Inr cached_result,
                st\<lparr>env := logger_info (''Cache hit para '' @ cache_key) (env st)\<rparr>)
          else compute_and_store cache_key current_time compute st
      | None \<Rightarrow> compute_and_store cache_key current_time compute st)"

subsection \<open>Key derivation and the decorator\<close>

text \<open>
  Flask's \<^verbatim>\<open>request\<close> is a context-local global; the wrapper reads its method and its
  path (line 42).
\<close>

record request =
  req_method :: string
  req_path :: string

text \<open>
  \<^verbatim>\<open>str(args)\<close> of the tuple of positional arguments: the \<^verbatim>\<open>repr\<close> of each element,
  separated by a comma and a space, in parentheses, with a trailing comma for a
  one-element tuple. \<^verbatim>\<open>repr\<close> of an argument is a parameter.
\<close>

fun join_comma :: "string list \<Rightarrow> string" where
  "join_comma [] = []"
| "join_comma [x] = x"
| "join_comma (x # y # ys) = x @ '', '' @ join_comma (y # ys)"

definition str_tuple :: "('a \<Rightarrow> string) \<Rightarrow> 'a list \<Rightarrow> string" where
  "str_tuple repr args =
     (case args of
        [] \<Rightarrow> ''()''
      | [x] \<Rightarrow> ''('' @ repr x @ '',)''
      | _ \<Rightarrow> ''('' @ join_comma (map repr args) @ '')'')"

text \<open>Line 42: \<^verbatim>\<open>f"{f.__name__}_{request.method}_{request.path}_{str(args)}"\<close>.\<close>

definition cache_key :: "string \<Rightarrow> request \<Rightarrow> string \<Rightarrow> string" where
  "cache_key fname req str_args =
     fname @ ''_'' @ req_method req @ ''_'' @ req_path req @ ''_'' @ str_args"

type_synonym ('a, 'kw, 'v, 'w) handler = "'a list \<Rightarrow> 'kw \<Rightarrow> ('v, 'w) compute"

text \<open>
  \<^verbatim>\<open>cache_response(ttl)(f)\<close> called with \<^verbatim>\<open>*args, **kwargs\<close> (lines 40-63). The handler's
  \<^verbatim>\<open>__name__\<close>, the current request and the clock reading are parameters.
\<close>

definition cache_response ::
  "real \<Rightarrow> string \<Rightarrow> ('a \<Rightarrow> string) \<Rightarrow> ('a, 'kw, 'v, 'w) handler \<Rightarrow> request \<Rightarrow> real \<Rightarrow>
   'a list \<Rightarrow> 'kw \<Rightarrow> ('v, 'w) state \<Rightarrow> (exn + 'v) \<times> ('v, 'w) state" where
  "cache_response ttl fname repr f req current_time args kwargs st =
     get_or_compute (cache_key fname req (str_tuple repr args)) ttl current_time
       (f args kwargs) st"

subsection \<open>\<^verbatim>\<open>handle_errors\<close>\<close>

text \<open>
  The wrapper returns what the handler returns, or a pair of a JSON body and a status
  code (lines 73-83); an exception that neither \<^verbatim>\<open>except\<close> clause matches leaves the
  wrapper as it came. The body is the list of its fields; the accented letter of the last
  message is written as its two UTF-8 bytes.
\<close>

datatype 'v response = Returned 'v | JsonWithStatus "(string \<times> string) list" nat

definition not_found_response :: "'v response" where
  "not_found_response =
     JsonWithStatus [(''error'', ''Recurso no encontrado''),
                     (''message'', ''La ruta solicitada no existe'')] 404"

definition server_error_response :: "'v response" where
  "server_error_response =
     JsonWithStatus [(''error'', ''Error interno del servidor''),
                     (''message'', ''Ocurri'' @ [CHR 0xC3, CHR 0xB3] @ '' un error inesperado'')] 500"

definition handle_errors ::
  "string \<Rightarrow> ('a, 'kw, 'v, 'w) handler \<Rightarrow> ('a, 'kw, 'v response, 'w) handler" where
  "handle_errors fname f args kwargs e =
     (case f args kwargs e of
        (Inr r, e1) \<Rightarrow> (Inr (Returned r), e1)
      | (Inl NotFound, e1) \<Rightarrow> (Inr not_found_response, e1)
      | (Inl (OtherException msg), e1) \<Rightarrow>
          (Inr server_error_response, logger_error (''Error en '' @ fname @ '': '' @ msg) e1)
      | (Inl (NonException name), e1) \<Rightarrow> (Inl (NonException name), e1))"

text \<open>
  The routes \<^verbatim>\<open>home\<close> (lines 90-93) and \<^verbatim>\<open>health_check\<close> (lines 299-302) put
  \<^verbatim>\<open>cache_response\<close> outside \<^verbatim>\<open>handle_errors\<close>; \<^verbatim>\<open>wraps\<close> keeps the handler's name.
\<close>

definition cached_route ::
  "real \<Rightarrow> string \<Rightarrow> ('a \<Rightarrow> string) \<Rightarrow> ('a, 'kw, 'v, 'w) handler \<Rightarrow> request \<Rightarrow> real \<Rightarrow>
   'a list \<Rightarrow> 'kw \<Rightarrow> ('v response, 'w) state \<Rightarrow> (exn + 'v response) \<times> ('v response, 'w) state" where
  "cached_route ttl fname repr f = cache_response ttl fname repr (handle_errors fname f)"

subsection \<open>Sequences of calls and well-formed dictionaries\<close>

record ('v, 'w) call =
  call_key :: string
  call_ttl :: real
  call_time :: real
  call_compute :: "('v, 'w) compute"

text \<open>
  One call after the other on the shared state, as successive requests make them; a call
  that raises ends its request, not the process. The results are collected in order.
\<close>

fun run_calls :: "('v, 'w) call list \<Rightarrow> ('v, 'w) state \<Rightarrow> (exn + 'v) list \<times> ('v, 'w) state" where
  "run_calls [] st = ([], st)"
| "run_calls (c # cs) st =
     (case get_or_compute (call_key c) (call_ttl c) (call_time c) (call_compute c) st of
        (r, st1) \<Rightarrow> (case run_calls cs st1 of (rs, st2) \<Rightarrow> (r # rs, st2)))"

text \<open>
  The condition of lines 46-48 under which the wrapper answers from the dictionary.
\<close>

definition is_hit :: "'v dict \<Rightarrow> string \<Rightarrow> real \<Rightarrow> real \<Rightarrow> bool" where
  "is_hit c k ttl now =
     (case map_of c k of Some (v, t) \<Rightarrow> now - t < ttl | None \<Rightarrow> False)"

text \<open>
  What holds of \<^verbatim>\<open>_app_cache\<close> between calls when the clock reads \<open>now\<close> and has not
  run backwards: the keys are distinct (it is a dictionary), there are at most 50
  entries, and no entry was stored at a later reading.
\<close>

definition cache_ok :: "real \<Rightarrow> 'v dict \<Rightarrow> bool" where
  "cache_ok now c \<longleftrightarrow>
     distinct (map fst c) \<and> length c \<le> 50 \<and> list_all (\<lambda>e. snd (snd e) \<le> now) c"

text \<open>
  The cleanup of lines 57-60 runs right after the assignment of line 54 and can pick the
  entry just assigned. \<open>entry_survives c k v now\<close> says that it does not: after
  assigning \<open>(v, now)\<close> to \<open>k\<close> in \<open>c\<close> there are at most 50 entries, or \<^verbatim>\<open>min\<close>
  returns another key.
\<close>

definition entry_survives :: "'v dict \<Rightarrow> string \<Rightarrow> 'v \<Rightarrow> real \<Rightarrow> bool" where
  "entry_survives c k v now \<longleftrightarrow>
     length (dict_set k (v, now) c) \<le> 50 \<or> py_min_key (dict_set k (v, now) c) \<noteq> Inr k"

text \<open>A dictionary at capacity, for the examples: 50 keys stored at the readings 0..49.\<close>

definition example_key :: "nat \<Rightarrow> string" where
  "example_key n = ''k'' @ replicate n (CHR ''x'')"

definition full_cache :: "nat dict" where
  "full_cache = map (\<lambda>n. (example_key n, (n, real n))) [0..<50]"

text \<open>A handler with a side-effect counter: it returns the count and increments it.\<close>

definition counting :: "(nat, nat) compute" where
  "counting e = (Inr (world e), e\<lparr>world := Suc (world e)\<rparr>)"

definition raising :: "exn \<Rightarrow> ('v, nat) compute" where
  "raising x e = (Inl x, e\<lparr>world := Suc (world e)\<rparr>)"

text \<open>
  The entries a run of calls assigns, in order: one for each call whose handler returned,
  with the returned value and the call's clock reading.
\<close>

fun stored :: "('v, 'w) call list \<Rightarrow> (exn + 'v) list \<Rightarrow> 'v dict" where
  "stored (c # cs) (Inr v # rs) = (call_key c, v, call_time c) # stored cs rs"
| "stored (c # cs) (Inl x # rs) = stored cs rs"
| "stored _ _ = []"

text \<open>51 calls with distinct keys at the clock readings 0..50, for the examples.\<close>

definition example_calls :: "(nat, nat) call list" where
  "example_calls =
     map (\<lambda>n. \<lparr>call_key = example_key n, call_ttl = 10, call_time = real n,
                call_compute = counting\<rparr>) [0..<51]"

text \<open>Two handlers for the examples: one always raises, one returns its keyword arguments.\<close>

definition failing :: "string \<Rightarrow> (nat, unit, nat, nat) handler" where
  "failing msg args kwargs = raising (OtherException msg)"


definition home_request :: request where
  "home_request = \<lparr>req_method = ''GET'', req_path = ''/''\<rparr>"

text \<open>
  A dictionary at capacity whose entries carry the readings 100..149, as a clock that was
  set back leaves them for a call at an earlier reading.
\<close>

definition late_cache :: "nat dict" where
  "late_cache = map (\<lambda>n. (example_key n, (n, 100 + real n))) [0..<50]"

text \<open>A handler that ends in \<^verbatim>\<open>sys.exit()\<close>, and the \<^verbatim>\<open>repr\<close> of a one-digit number.\<close>

definition exiting :: "(nat, unit, nat, nat) handler" where
  "exiting args kwargs = raising (NonException ''SystemExit'')"

definition repr_digit :: "nat \<Rightarrow> string" where
  "repr_digit n = [''0123456789'' ! n]"

section \<open>Properties of the dictionary operations\<close>

lemma map_of_dict_set: "map_of (dict_set k v c) = (map_of c)(k \<mapsto> v)"
  by (induction c) (auto simp: fun_eq_iff)

lemma dict_set_absent: "k \<notin> fst ` set c \<Longrightarrow> dict_set k v c = c @ [(k, v)]"
  by (induction c) auto

lemma length_dict_set_present: "k \<in> fst ` set c \<Longrightarrow> length (dict_set k v c) = length c"
  by (induction c) auto

lemma keys_dict_set_present: "k \<in> fst ` set c \<Longrightarrow> map fst (dict_set k v c) = map fst c"
  by (induction c) auto

lemma length_dict_set:
  "length (dict_set k v c) = (if k \<in> fst ` set c then length c else Suc (length c))"
  by (simp add: dict_set_absent length_dict_set_present)

lemma distinct_dict_set: "distinct (map fst c) \<Longrightarrow> distinct (map fst (dict_set k v c))"
  by (cases "k \<in> fst ` set c") (simp_all add: keys_dict_set_present dict_set_absent)

lemma set_dict_set: "set (dict_set k v c) \<subseteq> insert (k, v) (set c)"
  by (induction c) auto

lemma map_of_dict_del_other: "k' \<noteq> k \<Longrightarrow> map_of (dict_del k c) k' = map_of c k'"
  by (induction c) auto

lemma map_of_dict_del_same: "distinct (map fst c) \<Longrightarrow> map_of (dict_del k c) k = None"
  by (induction c) (auto simp: map_of_eq_None_iff)

lemma length_dict_del: "k \<in> fst ` set c \<Longrightarrow> Suc (length (dict_del k c)) = length c"
  by (induction c) auto

lemma set_dict_del: "set (dict_del k c) \<subseteq> set c"
  by (induction c) auto

lemma distinct_dict_del: "distinct (map fst c) \<Longrightarrow> distinct (map fst (dict_del k c))"
  by (induction c) (auto simp: image_iff dest!: subsetD[OF set_dict_del])

lemma dict_del_remove1:
  "distinct (map fst c) \<Longrightarrow> e \<in> set c \<Longrightarrow> dict_del (fst e) c = remove1 e c"
  by (induction c) (auto simp: image_iff)

subsection \<open>The minimum search\<close>

lemma min_by_timestamp_mem: "min_by_timestamp b es \<in> set (b # es)"
  by (induction es arbitrary: b) (auto split: if_splits)

lemma min_by_timestamp_le:
  "e \<in> set (b # es) \<Longrightarrow> snd (snd (min_by_timestamp b es)) \<le> snd (snd e)"
proof (induction es arbitrary: b e)
  case Nil
  then show ?case by simp
next
  case (Cons x xs)
  have best: "snd (snd (min_by_timestamp b' xs)) \<le> snd (snd b')" for b'
    using Cons.IH [where b = b' and e = b'] by simp
  show ?case
  proof (cases "e \<in> set xs")
    case True
    then show ?thesis using Cons.IH by simp
  next
    case False
    with Cons.prems have "e = b \<or> e = x" by auto
    then show ?thesis
      using best [of x] best [of b] by (auto split: if_splits)
  qed
qed

lemma min_by_timestamp_snoc:
  "min_by_timestamp b (es @ [x]) =
     (if snd (snd x) < snd (snd (min_by_timestamp b es)) then x else min_by_timestamp b es)"
  by (induction es arbitrary: b) auto

lemma min_by_timestamp_first:
  "\<forall>e \<in> set es. snd (snd b) \<le> snd (snd e) \<Longrightarrow> min_by_timestamp b es = b"
  by (induction es arbitrary: b) auto

lemma py_min_key_nonempty:
  assumes "c \<noteq> []"
  shows "\<exists>e \<in> set c. py_min_key c = Inr (fst e) \<and> (\<forall>x \<in> set c. snd (snd e) \<le> snd (snd x))"
proof -
  from assms obtain b es where c: "c = b # es" by (cases c) auto
  let ?m = "min_by_timestamp b es"
  have "?m \<in> set c" using min_by_timestamp_mem [of b es] c by simp
  moreover have "py_min_key c = Inr (fst ?m)" by (simp add: py_min_key_def c)
  moreover have "\<forall>x \<in> set c. snd (snd ?m) \<le> snd (snd x)"
    using min_by_timestamp_le [of _ b es] c by blast
  ultimately show ?thesis by blast
qed

lemma py_min_key_first:
  "\<forall>e \<in> set es. snd (snd b) \<le> snd (snd e) \<Longrightarrow> py_min_key (b # es) = Inr (fst b)"
  by (simp add: py_min_key_def min_by_timestamp_first)

lemma py_min_key_snoc_old:
  assumes "c \<noteq> []" "\<forall>e \<in> set c. snd (snd e) \<le> t"
  shows "\<exists>e \<in> set c. py_min_key (c @ [(k, v, t)]) = Inr (fst e)
           \<and> (\<forall>x \<in> set c. snd (snd e) \<le> snd (snd x))"
proof -
  from assms obtain b es where c: "c = b # es" by (cases c) auto
  let ?m = "min_by_timestamp b es"
  have m: "?m \<in> set c" using min_by_timestamp_mem [of b es] c by simp
  then have "snd (snd ?m) \<le> t" using assms(2) by blast
  then have "py_min_key (c @ [(k, v, t)]) = Inr (fst ?m)"
    by (simp add: py_min_key_def c min_by_timestamp_snoc)
  moreover have "\<forall>x \<in> set c. snd (snd ?m) \<le> snd (snd x)"
    using min_by_timestamp_le [of _ b es] c by blast
  ultimately show ?thesis using m by blast
qed

section \<open>Properties of the wrapper\<close>

lemma store_result_small:
  "length (dict_set k (v, now) (app_cache st)) \<le> 50 \<Longrightarrow>
   store_result k v now st = (Inr v, st\<lparr>app_cache := dict_set k (v, now) (app_cache st)\<rparr>)"
  by (simp add: store_result_def Let_def)

lemma store_result_big:
  assumes "length (dict_set k (v, now) (app_cache st)) > 50"
  shows "\<exists>e \<in> set (dict_set k (v, now) (app_cache st)).
           (\<forall>x \<in> set (dict_set k (v, now) (app_cache st)). snd (snd e) \<le> snd (snd x)) \<and>
           py_min_key (dict_set k (v, now) (app_cache st)) = Inr (fst e) \<and>
           store_result k v now st =
             (Inr v, \<lparr>app_cache = dict_del (fst e) (dict_set k (v, now) (app_cache st)),
                      env = logger_info ''Cache cleanup ejecutado'' (env st)\<rparr>)"
proof -
  let ?c1 = "dict_set k (v, now) (app_cache st)"
  have "?c1 \<noteq> []" using assms by auto
  from py_min_key_nonempty [OF this] obtain e where
    e: "e \<in> set ?c1" "py_min_key ?c1 = Inr (fst e)" "\<forall>x \<in> set ?c1. snd (snd e) \<le> snd (snd x)"
    by blast
  then show ?thesis using assms by (auto simp: store_result_def Let_def intro!: bexI [of _ e])
qed

lemma get_or_compute_hit:
  "map_of (app_cache st) k = Some (v, t) \<Longrightarrow> now - t < ttl \<Longrightarrow>
   get_or_compute k ttl now f st =
     (Inr v, st\<lparr>env := logger_info (''Cache hit para '' @ k) (env st)\<rparr>)"
  by (simp add: get_or_compute_def)

lemma get_or_compute_miss:
  "\<not> is_hit (app_cache st) k ttl now \<Longrightarrow>
   get_or_compute k ttl now f st = compute_and_store k now f st"
  by (auto simp: get_or_compute_def is_hit_def split: option.splits)

lemma is_hit_iff:
  "is_hit c k ttl now \<longleftrightarrow> (\<exists>v t. map_of c k = Some (v, t) \<and> now - t < ttl)"
  by (auto simp: is_hit_def split: option.splits)

lemma compute_and_store_raise:
  "f (env st) = (Inl x, e1) \<Longrightarrow> compute_and_store k now f st = (Inl x, st\<lparr>env := e1\<rparr>)"
  by (simp add: compute_and_store_def)

lemma compute_and_store_return:
  "f (env st) = (Inr v, e1) \<Longrightarrow>
   compute_and_store k now f st = store_result k v now (st\<lparr>env := e1\<rparr>)"
  by (simp add: compute_and_store_def)

lemma cache_ok_mono: "cache_ok now c \<Longrightarrow> now \<le> now' \<Longrightarrow> cache_ok now' c"
  by (auto simp: cache_ok_def list_all_iff)

lemma store_result_keeps_key:
  assumes ok: "cache_ok now (app_cache st)"
  shows "\<exists>st'. store_result k v now st = (Inr v, st') \<and>
           map_of (app_cache st') k = Some (v, now) \<and>
           cache_ok now (app_cache st') \<and>
           world (env st') = world (env st)"
proof -
  let ?c = "app_cache st"
  let ?c1 = "dict_set k (v, now) ?c"
  have d1: "distinct (map fst ?c1)" using ok by (simp add: cache_ok_def distinct_dict_set)
  have t1: "\<forall>e \<in> set ?c1. snd (snd e) \<le> now"
    using ok set_dict_set [of k "(v, now)" ?c] by (auto simp: cache_ok_def list_all_iff)
  have m1: "map_of ?c1 k = Some (v, now)" by (simp add: map_of_dict_set)
  show ?thesis
  proof (cases "length ?c1 \<le> 50")
    case True
    then show ?thesis
      using d1 t1 m1 by (simp add: store_result_small cache_ok_def list_all_iff)
  next
    case False
    then have big: "length ?c1 > 50" by simp
    have absent: "k \<notin> fst ` set ?c"
      using big ok by (auto simp: length_dict_set cache_ok_def split: if_splits)
    then have c1: "?c1 = ?c @ [(k, v, now)]" by (rule dict_set_absent)
    have "?c \<noteq> []" using big c1 by auto
    moreover have "\<forall>e \<in> set ?c. snd (snd e) \<le> now"
      using ok by (simp add: cache_ok_def list_all_iff)
    ultimately obtain e where e: "e \<in> set ?c" "py_min_key ?c1 = Inr (fst e)"
      using py_min_key_snoc_old [of ?c now k v] c1 by auto
    have ne: "k \<noteq> fst e" using e(1) absent by auto
    let ?c2 = "dict_del (fst e) ?c1"
    have sr: "store_result k v now st =
        (Inr v, \<lparr>app_cache = ?c2, env = logger_info ''Cache cleanup ejecutado'' (env st)\<rparr>)"
      using big e(2) by (simp add: store_result_def Let_def)
    have "fst e \<in> fst ` set ?c1" using e(1) c1 by auto
    from length_dict_del [OF this] have "length ?c2 \<le> 50"
      using ok c1 by (simp add: cache_ok_def)
    moreover have "distinct (map fst ?c2)" using d1 by (rule distinct_dict_del)
    moreover have "\<forall>x \<in> set ?c2. snd (snd x) \<le> now"
      using t1 set_dict_del [of "fst e" ?c1] by blast
    moreover have "map_of ?c2 k = Some (v, now)"
      using ne m1 by (simp add: map_of_dict_del_other)
    ultimately show ?thesis
      by (simp add: sr cache_ok_def list_all_iff logger_info_def)
  qed
qed

lemma miss_then_hit:
  assumes ok: "cache_ok now (app_cache st)"
    and miss: "\<not> is_hit (app_cache st) k ttl now"
    and ret: "f (env st) = (Inr v, e1)"
    and win: "now2 - now < ttl2"
  shows "\<exists>st1. get_or_compute k ttl now f st = (Inr v, st1) \<and>
           world (env st1) = world e1 \<and>
           map_of (app_cache st1) k = Some (v, now) \<and>
           cache_ok now (app_cache st1) \<and>
           get_or_compute k ttl2 now2 g st1 =
             (Inr v, st1\<lparr>env := logger_info (''Cache hit para '' @ k) (env st1)\<rparr>)"
proof -
  have "cache_ok now (app_cache (st\<lparr>env := e1\<rparr>))" using ok by simp
  from store_result_keeps_key [OF this, of k v] obtain st1 where
    st1: "store_result k v now (st\<lparr>env := e1\<rparr>) = (Inr v, st1)"
      "map_of (app_cache st1) k = Some (v, now)" "cache_ok now (app_cache st1)"
      "world (env st1) = world e1"
    by auto
  have "get_or_compute k ttl now f st = (Inr v, st1)"
    using miss ret st1(1) by (simp add: get_or_compute_miss compute_and_store_return)
  moreover have "get_or_compute k ttl2 now2 g st1 =
      (Inr v, st1\<lparr>env := logger_info (''Cache hit para '' @ k) (env st1)\<rparr>)"
    using st1(2) win by (rule get_or_compute_hit)
  ultimately show ?thesis using st1 by blast
qed

subsection \<open>The dictionary between calls\<close>

text \<open>
  \<open>cache_ok\<close> holds of every state the program reaches from the empty dictionary while
  the clock does not run backwards.
\<close>

lemma get_or_compute_cache_ok:
  assumes "cache_ok now (app_cache st)"
  shows "cache_ok now (app_cache (snd (get_or_compute k ttl now f st)))"
proof (cases "is_hit (app_cache st) k ttl now")
  case True
  then obtain v t where "map_of (app_cache st) k = Some (v, t)" "now - t < ttl"
    by (auto simp: is_hit_iff)
  then show ?thesis using assms by (simp add: get_or_compute_hit)
next
  case False
  obtain r e' where f: "f (env st) = (r, e')" by (cases "f (env st)")
  show ?thesis
  proof (cases r)
    case (Inl x)
    then show ?thesis
      using False f assms by (simp add: get_or_compute_miss compute_and_store_raise)
  next
    case (Inr v)
    have "cache_ok now (app_cache (st\<lparr>env := e'\<rparr>))" using assms by simp
    from store_result_keeps_key [OF this, of k v] show ?thesis
      using False f Inr by (auto simp: get_or_compute_miss compute_and_store_return)
  qed
qed

lemma run_calls_cache_ok_from:
  "cache_ok t (app_cache st) \<Longrightarrow> sorted (t # map call_time cs @ [now]) \<Longrightarrow>
   cache_ok now (app_cache (snd (run_calls cs st)))"
proof (induction cs arbitrary: st t)
  case Nil
  then show ?case by (simp add: cache_ok_mono)
next
  case (Cons c cs)
  let ?st1 = "snd (get_or_compute (call_key c) (call_ttl c) (call_time c) (call_compute c) st)"
  have "cache_ok (call_time c) (app_cache st)"
    using Cons.prems by (auto intro: cache_ok_mono)
  then have "cache_ok (call_time c) (app_cache ?st1)" by (rule get_or_compute_cache_ok)
  moreover have "sorted (call_time c # map call_time cs @ [now])" using Cons.prems(2) by simp
  ultimately have "cache_ok now (app_cache (snd (run_calls cs ?st1)))" by (rule Cons.IH)
  then show ?case by (simp add: split_beta)
qed

lemma run_calls_cache_ok:
  assumes "sorted (map call_time cs @ [now])"
  shows "cache_ok now (app_cache (snd (run_calls cs \<lparr>app_cache = [], env = ienv\<rparr>)))"
proof (cases cs)
  case Nil
  then show ?thesis by (simp add: cache_ok_def)
next
  case (Cons c cs')
  have "cache_ok (call_time c) (app_cache \<lparr>app_cache = [], env = ienv\<rparr>)"
    by (simp add: cache_ok_def)
  moreover have "sorted (call_time c # map call_time cs @ [now])" using assms Cons by simp
  ultimately show ?thesis by (rule run_calls_cache_ok_from)
qed

section \<open>Miss: compute, store, clean up\<close>

lemma store_result_fst: "fst (store_result k v now st) = Inr v"
proof (cases "length (dict_set k (v, now) (app_cache st)) \<le> 50")
  case True
  then show ?thesis by (simp add: store_result_small)
next
  case False
  then show ?thesis using store_result_big [of k v now st] by auto
qed

lemma store_result_world: "world (env (snd (store_result k v now st))) = world (env st)"
proof (cases "length (dict_set k (v, now) (app_cache st)) \<le> 50")
  case True
  then show ?thesis by (simp add: store_result_small)
next
  case False
  then show ?thesis using store_result_big [of k v now st] by (auto simp: logger_info_def)
qed

lemma store_result_cache:
  "if length (dict_set k (v, now) (app_cache st)) > 50
   then \<exists>e \<in> set (dict_set k (v, now) (app_cache st)).
          (\<forall>x \<in> set (dict_set k (v, now) (app_cache st)). snd (snd e) \<le> snd (snd x)) \<and>
          app_cache (snd (store_result k v now st)) =
            dict_del (fst e) (dict_set k (v, now) (app_cache st))
   else app_cache (snd (store_result k v now st)) = dict_set k (v, now) (app_cache st)"
proof (cases "length (dict_set k (v, now) (app_cache st)) \<le> 50")
  case True
  then show ?thesis by (simp add: store_result_small)
next
  case False
  then have big: "length (dict_set k (v, now) (app_cache st)) > 50" by simp
  from store_result_big [OF this] obtain e where
    e: "e \<in> set (dict_set k (v, now) (app_cache st))"
      "\<forall>x \<in> set (dict_set k (v, now) (app_cache st)). snd (snd e) \<le> snd (snd x)"
      "store_result k v now st =
         (Inr v, \<lparr>app_cache = dict_del (fst e) (dict_set k (v, now) (app_cache st)),
                  env = logger_info ''Cache cleanup ejecutado'' (env st)\<rparr>)"
    by blast
  have "app_cache (snd (store_result k v now st)) =
      dict_del (fst e) (dict_set k (v, now) (app_cache st))"
    by (simp add: e(3))
  with e(1,2) big show ?thesis by auto
qed


lemma compute_and_store_fst: "fst (compute_and_store k now f st) = fst (f (env st))"
  by (cases "f (env st)") (auto simp: compute_and_store_def store_result_fst split: sum.splits)


lemma map_of_dict_set_other: "k' \<noteq> k \<Longrightarrow> map_of (dict_set k v c) k' = map_of c k'"
  by (simp add: map_of_dict_set)

lemma map_of_key_mem: "map_of c k = Some x \<Longrightarrow> k \<in> fst ` set c"
  by (force dest: map_of_SomeD)



section \<open>Capacity and eviction\<close>

lemma store_result_remove1:
  assumes d: "distinct (map fst (app_cache st))"
    and big: "length (dict_set k (v, now) (app_cache st)) > 50"
  shows "\<exists>e \<in> set (dict_set k (v, now) (app_cache st)).
           (\<forall>x \<in> set (dict_set k (v, now) (app_cache st)). snd (snd e) \<le> snd (snd x)) \<and>
           app_cache (snd (store_result k v now st)) =
             remove1 e (dict_set k (v, now) (app_cache st)) \<and>
           Suc (length (app_cache (snd (store_result k v now st)))) =
             length (dict_set k (v, now) (app_cache st))"
proof -
  let ?c1 = "dict_set k (v, now) (app_cache st)"
  have d1: "distinct (map fst ?c1)" using d by (rule distinct_dict_set)
  from store_result_cache [of k v now st] big obtain e where
    e: "e \<in> set ?c1" "\<forall>x \<in> set ?c1. snd (snd e) \<le> snd (snd x)"
      "app_cache (snd (store_result k v now st)) = dict_del (fst e) ?c1"
    by auto
  have "dict_del (fst e) ?c1 = remove1 e ?c1" using d1 e(1) by (rule dict_del_remove1)
  moreover have "Suc (length (dict_del (fst e) ?c1)) = length ?c1"
    using e(1) by (intro length_dict_del) auto
  ultimately show ?thesis using e by auto
qed

lemma store_result_inv:
  assumes "distinct (map fst (app_cache st))" "length (app_cache st) \<le> 50"
  shows "distinct (map fst (app_cache (snd (store_result k v now st)))) \<and>
         length (app_cache (snd (store_result k v now st))) \<le> 50"
proof -
  let ?c1 = "dict_set k (v, now) (app_cache st)"
  have d1: "distinct (map fst ?c1)" using assms(1) by (rule distinct_dict_set)
  have l1: "length ?c1 \<le> 51" using assms(2) by (simp add: length_dict_set)
  show ?thesis
  proof (cases "length ?c1 > 50")
    case False
    then show ?thesis using d1 store_result_cache [of k v now st] by simp
  next
    case True
    from store_result_remove1 [OF assms(1) True] obtain e where
      e: "app_cache (snd (store_result k v now st)) = remove1 e ?c1"
        "Suc (length (app_cache (snd (store_result k v now st)))) = length ?c1"
      by blast
    have "distinct (map fst (remove1 e ?c1))"
      using d1 by (metis distinct_map distinct_remove1 inj_on_subset set_remove1_subset)
    then show ?thesis using e l1 by simp
  qed
qed

lemma get_or_compute_inv:
  assumes "distinct (map fst (app_cache st))" "length (app_cache st) \<le> 50"
  shows "distinct (map fst (app_cache (snd (get_or_compute k ttl now f st)))) \<and>
         length (app_cache (snd (get_or_compute k ttl now f st))) \<le> 50"
proof (cases "is_hit (app_cache st) k ttl now")
  case True
  then obtain v t where "map_of (app_cache st) k = Some (v, t)" "now - t < ttl"
    by (auto simp: is_hit_iff)
  then show ?thesis using assms by (simp add: get_or_compute_hit)
next
  case False
  obtain r e' where f: "f (env st) = (r, e')" by (cases "f (env st)")
  show ?thesis
  proof (cases r)
    case (Inl x)
    then show ?thesis
      using False f assms by (simp add: get_or_compute_miss compute_and_store_raise)
  next
    case (Inr v)
    then have "get_or_compute k ttl now f st = store_result k v now (st\<lparr>env := e'\<rparr>)"
      using False f by (simp add: get_or_compute_miss compute_and_store_return)
    then show ?thesis
      using store_result_inv [of "st\<lparr>env := e'\<rparr>" k v now] assms by simp
  qed
qed

lemma run_calls_inv:
  "distinct (map fst (app_cache st)) \<Longrightarrow> length (app_cache st) \<le> 50 \<Longrightarrow>
   distinct (map fst (app_cache (snd (run_calls cs st)))) \<and>
   length (app_cache (snd (run_calls cs st))) \<le> 50"
proof (induction cs arbitrary: st)
  case Nil
  then show ?case by simp
next
  case (Cons c cs)
  let ?st1 = "snd (get_or_compute (call_key c) (call_ttl c) (call_time c) (call_compute c) st)"
  have "distinct (map fst (app_cache ?st1)) \<and> length (app_cache ?st1) \<le> 50"
    using Cons.prems by (rule get_or_compute_inv)
  then have "distinct (map fst (app_cache (snd (run_calls cs ?st1)))) \<and>
      length (app_cache (snd (run_calls cs ?st1))) \<le> 50"
    using Cons.IH by blast
  then show ?case by (simp add: split_beta)
qed

text \<open>
  Claim C3 (capacity invariant). Let \<open>st\<close> be the state after any sequence of calls
  that starts from the empty dictionary, and \<open>st'\<close> the state after one more call. Both
  hold at most 50 entries. The call changes the dictionary as follows: a hit and a call
  whose handler raises leave it as it is; a miss whose handler returns \<open>v\<close> assigns
  \<open>(v, now)\<close> to the key and then, if that leaves more than 50 entries, removes exactly
  one entry, and otherwise removes none. Assigning to a key that is present does not
  change the number of entries and removes none.
\<close>

theorem capacity_invariant:
  assumes "st = snd (run_calls cs \<lparr>app_cache = [], env = ienv\<rparr>)"
    and "st' = snd (get_or_compute k ttl now f st)"
  shows "length (app_cache st) \<le> 50 \<and> length (app_cache st') \<le> 50 \<and>
         (is_hit (app_cache st) k ttl now \<longrightarrow> app_cache st' = app_cache st) \<and>
         (\<not> is_hit (app_cache st) k ttl now \<longrightarrow>
            (\<forall>x. fst (f (env st)) = Inl x \<longrightarrow> app_cache st' = app_cache st) \<and>
            (\<forall>v. fst (f (env st)) = Inr v \<longrightarrow>
               (if length (dict_set k (v, now) (app_cache st)) > 50
                then \<exists>e \<in> set (dict_set k (v, now) (app_cache st)).
                       app_cache st' = remove1 e (dict_set k (v, now) (app_cache st)) \<and>
                       Suc (length (app_cache st')) =
                         length (dict_set k (v, now) (app_cache st))
                else app_cache st' = dict_set k (v, now) (app_cache st)) \<and>
               (k \<in> fst ` set (app_cache st) \<longrightarrow>
                  length (dict_set k (v, now) (app_cache st)) = length (app_cache st) \<and>
                  app_cache st' = dict_set k (v, now) (app_cache st))))"
proof -
  have inv: "distinct (map fst (app_cache st)) \<and> length (app_cache st) \<le> 50"
    unfolding assms(1) by (rule run_calls_inv) simp_all
  then have inv': "length (app_cache st') \<le> 50"
    unfolding assms(2) using get_or_compute_inv by blast
  have hit: "app_cache st' = app_cache st" if "is_hit (app_cache st) k ttl now"
  proof -
    from that obtain v t where "map_of (app_cache st) k = Some (v, t)" "now - t < ttl"
      by (auto simp: is_hit_iff)
    then show ?thesis by (simp add: assms(2) get_or_compute_hit)
  qed
  have raise: "app_cache st' = app_cache st"
    if "\<not> is_hit (app_cache st) k ttl now" "fst (f (env st)) = Inl x" for x
  proof -
    from that(2) have "f (env st) = (Inl x, snd (f (env st)))" by (cases "f (env st)") simp
    then show ?thesis
      using that(1) by (simp add: assms(2) get_or_compute_miss compute_and_store_raise)
  qed
  have ret: "(if length (dict_set k (v, now) (app_cache st)) > 50
                then \<exists>e \<in> set (dict_set k (v, now) (app_cache st)).
                       app_cache st' = remove1 e (dict_set k (v, now) (app_cache st)) \<and>
                       Suc (length (app_cache st')) =
                         length (dict_set k (v, now) (app_cache st))
                else app_cache st' = dict_set k (v, now) (app_cache st)) \<and>
               (k \<in> fst ` set (app_cache st) \<longrightarrow>
                  length (dict_set k (v, now) (app_cache st)) = length (app_cache st) \<and>
                  app_cache st' = dict_set k (v, now) (app_cache st))"
    if "\<not> is_hit (app_cache st) k ttl now" "fst (f (env st)) = Inr v" for v
  proof -
    let ?c1 = "dict_set k (v, now) (app_cache st)"
    let ?s = "st\<lparr>env := snd (f (env st))\<rparr>"
    from that(2) have "f (env st) = (Inr v, snd (f (env st)))" by (cases "f (env st)") simp
    then have st': "st' = snd (store_result k v now ?s)"
      using that(1) by (simp add: assms(2) get_or_compute_miss compute_and_store_return)
    have small: "app_cache st' = ?c1" if "\<not> length ?c1 > 50"
      using that store_result_cache [of k v now ?s] by (simp add: st')
    have big: "\<exists>e \<in> set ?c1. app_cache st' = remove1 e ?c1 \<and>
        Suc (length (app_cache st')) = length ?c1" if "length ?c1 > 50"
      using that store_result_remove1 [of ?s k v now] inv by (auto simp: st')
    have "length ?c1 = length (app_cache st)" if "k \<in> fst ` set (app_cache st)"
      using that by (rule length_dict_set_present)
    then show ?thesis using small big inv by auto
  qed
  show ?thesis using inv inv' hit raise ret by blast
qed

theorem capacity_invariant_witness:
  "app_cache (snd (get_or_compute ''b'' 10 1 counting
     (snd (run_calls [\<lparr>call_key = ''a'', call_ttl = 10, call_time = 0, call_compute = counting\<rparr>]
            \<lparr>app_cache = [], env = \<lparr>logged = [], world = 0\<rparr>\<rparr>)))) =
     [(''a'', 0, 0), (''b'', 1, 1)] \<and>
   length (app_cache (snd (get_or_compute ''b'' 10 1 counting
     (snd (run_calls [\<lparr>call_key = ''a'', call_ttl = 10, call_time = 0, call_compute = counting\<rparr>]
            \<lparr>app_cache = [], env = \<lparr>logged = [], world = 0\<rparr>\<rparr>))))) \<le> 50"
  using capacity_invariant [OF refl refl, where k = "''b''" and ttl = 10 and now = 1
      and f = counting and ienv = "\<lparr>logged = [], world = 0\<rparr>"
      and cs = "[\<lparr>call_key = ''a'', call_ttl = 10, call_time = 0, call_compute = counting\<rparr>]"]
  by (simp add: get_or_compute_def compute_and_store_def store_result_def counting_def is_hit_def)

subsection \<open>The example dictionary\<close>

lemma example_key_inj: "example_key m = example_key n \<longleftrightarrow> m = n"
proof
  assume "example_key m = example_key n"
  then have "length (example_key m) = length (example_key n)" by simp
  then show "m = n" by (simp add: example_key_def)
qed simp

lemma example_key_not_new: "example_key n \<noteq> ''new''"
  by (simp add: example_key_def)

lemma full_cache_keys: "map fst full_cache = map example_key [0..<50]"
  by (simp add: full_cache_def comp_def)

lemma distinct_full_cache: "distinct (map fst full_cache)"
  unfolding full_cache_keys by (simp add: distinct_map inj_on_def example_key_inj)

lemma length_full_cache: "length full_cache = 50"
  by (simp add: full_cache_def)

lemma new_not_in_full_cache: "''new'' \<notin> fst ` set full_cache"
proof -
  have "''new'' \<notin> set (map fst full_cache)"
    unfolding full_cache_keys by (auto simp: example_key_def simp del: upt.simps)
  then show ?thesis by simp
qed

lemma map_of_full_cache_new: "map_of full_cache ''new'' = None"
  using new_not_in_full_cache by (simp add: map_of_eq_None_iff)

lemma full_cache_Cons:
  "full_cache = (''k'', 0, 0) # map (\<lambda>n. (example_key n, n, real n)) [1..<50]"
  by (simp add: full_cache_def upt_conv_Cons [of 0] example_key_def del: upt.simps)

lemma full_cache_evict:
  assumes f: "f e = (Inr v, e')" and now: "0 \<le> now"
  shows "get_or_compute ''new'' ttl now f \<lparr>app_cache = full_cache, env = e\<rparr> =
           (Inr v, \<lparr>app_cache = tl full_cache @ [(''new'', v, now)],
                    env = logger_info ''Cache cleanup ejecutado'' e'\<rparr>)"
proof -
  let ?st = "\<lparr>app_cache = full_cache, env = e\<rparr>"
  let ?rest = "map (\<lambda>n. (example_key n, n, real n)) [1..<50]"
  have miss: "\<not> is_hit (app_cache ?st) ''new'' ttl now"
    by (simp add: is_hit_def map_of_full_cache_new)
  have c1: "dict_set ''new'' (v, now) full_cache = full_cache @ [(''new'', v, now)]"
    using new_not_in_full_cache by (rule dict_set_absent)
  have "\<forall>x \<in> set (?rest @ [(''new'', v, now)]). snd (snd (''k'', 0::nat, 0::real)) \<le> snd (snd x)"
    using now by (auto simp del: upt.simps)
  then have "py_min_key ((''k'', 0, 0) # ?rest @ [(''new'', v, now)]) = Inr ''k''"
    using py_min_key_first [of "?rest @ [(''new'', v, now)]" "(''k'', 0::nat, 0::real)"] by simp
  then have pm: "py_min_key (full_cache @ [(''new'', v, now)]) = Inr ''k''"
    by (simp add: full_cache_Cons del: upt.simps)
  have dd: "dict_del ''k'' (full_cache @ [(''new'', v, now)]) = tl full_cache @ [(''new'', v, now)]"
    by (simp add: full_cache_Cons del: upt.simps)
  have "store_result ''new'' v now \<lparr>app_cache = full_cache, env = e'\<rparr> =
      (Inr v, \<lparr>app_cache = tl full_cache @ [(''new'', v, now)],
               env = logger_info ''Cache cleanup ejecutado'' e'\<rparr>)"
    by (simp add: store_result_def c1 length_full_cache pm dd)
  then show ?thesis
    using miss f by (simp add: get_or_compute_miss compute_and_store_return)
qed

lemma k_not_in_tl_full_cache: "map_of (tl full_cache @ [(''new'', v, t)]) ''k'' = None"
proof -
  have "''k'' \<notin> example_key ` {1..<50}"
  proof
    assume "''k'' \<in> example_key ` {1..<50}"
    then obtain n where "n \<in> {1..<50}" "example_key 0 = example_key n"
      by (auto simp: example_key_def)
    then show False by (simp add: example_key_inj)
  qed
  then show ?thesis
    by (simp add: full_cache_Cons map_of_eq_None_iff image_Un image_image del: upt.simps)
qed

lemma k_in_full_cache: "map_of full_cache ''k'' = Some (0, 0)"
  by (simp add: full_cache_Cons del: upt.simps)

text \<open>
  Claim C4 (eviction target). For every dictionary and key: when a miss whose handler
  returns leaves more than 50 entries after the assignment, the call removes one entry
  \<open>e\<close> of the dictionary, no entry has a smaller timestamp than \<open>e\<close>, every other key
  keeps its entry and the key of \<open>e\<close> is absent afterwards. The timestamp of an entry is
  the clock reading at which it was stored; a hit does not change it.
\<close>

theorem eviction_removes_oldest:
  assumes "distinct (map fst (app_cache st))"
    and "\<not> is_hit (app_cache st) k ttl now"
    and "f (env st) = (Inr v, e')"
    and "length (dict_set k (v, now) (app_cache st)) > 50"
  shows "\<exists>e \<in> set (dict_set k (v, now) (app_cache st)).
           (\<forall>x \<in> set (dict_set k (v, now) (app_cache st)). snd (snd e) \<le> snd (snd x)) \<and>
           app_cache (snd (get_or_compute k ttl now f st)) =
             remove1 e (dict_set k (v, now) (app_cache st)) \<and>
           Suc (length (app_cache (snd (get_or_compute k ttl now f st)))) =
             length (dict_set k (v, now) (app_cache st)) \<and>
           map_of (app_cache (snd (get_or_compute k ttl now f st))) (fst e) = None \<and>
           (\<forall>k'. k' \<noteq> fst e \<longrightarrow>
              map_of (app_cache (snd (get_or_compute k ttl now f st))) k' =
                map_of (dict_set k (v, now) (app_cache st)) k')"
proof -
  let ?c1 = "dict_set k (v, now) (app_cache st)"
  let ?s = "st\<lparr>env := e'\<rparr>"
  have goc: "get_or_compute k ttl now f st = store_result k v now ?s"
    using assms(2,3) by (simp add: get_or_compute_miss compute_and_store_return)
  have d1: "distinct (map fst ?c1)" using assms(1) by (rule distinct_dict_set)
  from store_result_remove1 [of ?s k v now] assms(1,4) obtain e where
    e: "e \<in> set ?c1" "\<forall>x \<in> set ?c1. snd (snd e) \<le> snd (snd x)"
      "app_cache (snd (store_result k v now ?s)) = remove1 e ?c1"
      "Suc (length (app_cache (snd (store_result k v now ?s)))) = length ?c1"
    by auto
  have r: "remove1 e ?c1 = dict_del (fst e) ?c1"
    using d1 e(1) by (simp add: dict_del_remove1)
  have "map_of (remove1 e ?c1) (fst e) = None"
    unfolding r using d1 by (rule map_of_dict_del_same)
  moreover have "\<forall>k'. k' \<noteq> fst e \<longrightarrow> map_of (remove1 e ?c1) k' = map_of ?c1 k'"
    unfolding r by (simp add: map_of_dict_del_other)
  ultimately show ?thesis using e unfolding goc by (intro bexI [of _ e]) simp_all
qed

theorem eviction_removes_oldest_witness:
  "\<exists>e \<in> set (dict_set ''new'' (0, 50) full_cache).
     app_cache (snd (get_or_compute ''new'' 10 50 counting
        \<lparr>app_cache = full_cache, env = \<lparr>logged = [], world = 0\<rparr>\<rparr>)) =
       remove1 e (dict_set ''new'' (0, 50) full_cache) \<and>
     map_of (app_cache (snd (get_or_compute ''new'' 10 50 counting
        \<lparr>app_cache = full_cache, env = \<lparr>logged = [], world = 0\<rparr>\<rparr>))) (fst e) = None"
proof -
  let ?st = "\<lparr>app_cache = full_cache, env = \<lparr>logged = [], world = 0::nat\<rparr>\<rparr>"
  have "distinct (map fst (app_cache ?st))" by (simp add: distinct_full_cache)
  moreover have "\<not> is_hit (app_cache ?st) ''new'' 10 50"
    by (simp add: is_hit_def map_of_full_cache_new)
  moreover have "counting (env ?st) = (Inr 0, \<lparr>logged = [], world = 1\<rparr>)"
    by (simp add: counting_def)
  moreover have "length (dict_set ''new'' (0::nat, 50::real) (app_cache ?st)) > 50"
    using new_not_in_full_cache by (simp add: length_dict_set length_full_cache)
  ultimately show ?thesis
    using eviction_removes_oldest [of ?st "''new''" 10 50 counting 0 "\<lparr>logged = [], world = 1\<rparr>"]
    by auto
qed

subsection \<open>Runs of calls\<close>

lemma run_calls_append:
  "run_calls (xs @ ys) st =
     (case run_calls xs st of (rs, st1) \<Rightarrow>
        (case run_calls ys st1 of (rs', st2) \<Rightarrow> (rs @ rs', st2)))"
  by (induction xs arbitrary: st) (simp_all add: split_beta)

lemma length_run_calls: "length (fst (run_calls cs st)) = length cs"
  by (induction cs arbitrary: st) (simp_all add: split_beta)

lemma get_or_compute_fst_miss:
  "\<not> is_hit (app_cache st) k ttl now \<Longrightarrow>
   fst (get_or_compute k ttl now f st) = fst (f (env st))"
  by (simp add: get_or_compute_miss compute_and_store_fst)

lemma get_or_compute_returns:
  assumes "\<not> isl (fst (f (env st)))"
  shows "\<not> isl (fst (get_or_compute k ttl now f st))"
proof (cases "is_hit (app_cache st) k ttl now")
  case True
  then obtain v t where "map_of (app_cache st) k = Some (v, t)" "now - t < ttl"
    by (auto simp: is_hit_iff)
  then show ?thesis by (simp add: get_or_compute_hit)
next
  case False
  then show ?thesis using assms by (simp add: get_or_compute_fst_miss)
qed

lemma run_calls_all_return:
  "\<forall>c \<in> set cs. \<forall>e. \<not> isl (fst (call_compute c e)) \<Longrightarrow>
   list_all (\<lambda>r. \<not> isl r) (fst (run_calls cs st))"
  by (induction cs arbitrary: st) (simp_all add: split_beta get_or_compute_returns)

lemma get_or_compute_append:
  assumes "k \<notin> fst ` set (app_cache st)" "length (app_cache st) < 50"
  shows "get_or_compute k ttl now f st =
     (case f (env st) of
        (Inl x, e') \<Rightarrow> (Inl x, st\<lparr>env := e'\<rparr>)
      | (Inr v, e') \<Rightarrow> (Inr v, \<lparr>app_cache = app_cache st @ [(k, v, now)], env = e'\<rparr>))"
proof -
  have "map_of (app_cache st) k = None" using assms(1) by (simp add: map_of_eq_None_iff)
  then have miss: "\<not> is_hit (app_cache st) k ttl now" by (simp add: is_hit_def)
  obtain r e' where f: "f (env st) = (r, e')" by (cases "f (env st)")
  show ?thesis
  proof (cases r)
    case (Inl x)
    then show ?thesis using miss f by (simp add: get_or_compute_miss compute_and_store_raise)
  next
    case (Inr v)
    have "dict_set k (v, now) (app_cache st) = app_cache st @ [(k, v, now)]"
      using assms(1) by (rule dict_set_absent)
    then have "store_result k v now (st\<lparr>env := e'\<rparr>) =
        (Inr v, \<lparr>app_cache = app_cache st @ [(k, v, now)], env = e'\<rparr>)"
      using assms(2) by (simp add: store_result_def)
    then show ?thesis
      using miss f Inr by (simp add: get_or_compute_miss compute_and_store_return)
  qed
qed

lemma run_calls_fill:
  assumes "distinct (map call_key cs)"
    and "call_key ` set cs \<inter> fst ` set (app_cache st) = {}"
    and "length (app_cache st) + length cs \<le> 50"
  shows "app_cache (snd (run_calls cs st)) = app_cache st @ stored cs (fst (run_calls cs st))"
  using assms
proof (induction cs arbitrary: st)
  case Nil
  then show ?case by simp
next
  case (Cons c cs)
  let ?k = "call_key c"
  let ?f = "call_compute c"
  have k: "?k \<notin> fst ` set (app_cache st)" using Cons.prems(2) by auto
  have l: "length (app_cache st) < 50" using Cons.prems(3) by simp
  note step = get_or_compute_append [OF k l, of "call_ttl c" "call_time c" ?f]
  obtain r e' where f: "?f (env st) = (r, e')" by (cases "?f (env st)")
  show ?case
  proof (cases r)
    case (Inl x)
    let ?st1 = "st\<lparr>env := e'\<rparr>"
    have g: "get_or_compute ?k (call_ttl c) (call_time c) ?f st = (Inl x, ?st1)"
      using step f Inl by simp
    have "app_cache (snd (run_calls cs ?st1)) =
        app_cache ?st1 @ stored cs (fst (run_calls cs ?st1))"
      using Cons.prems by (intro Cons.IH) auto
    then show ?thesis by (simp add: g split_beta)
  next
    case (Inr v)
    let ?st1 = "\<lparr>app_cache = app_cache st @ [(?k, v, call_time c)], env = e'\<rparr>"
    have g: "get_or_compute ?k (call_ttl c) (call_time c) ?f st = (Inr v, ?st1)"
      using step f Inr by simp
    have "app_cache (snd (run_calls cs ?st1)) =
        app_cache ?st1 @ stored cs (fst (run_calls cs ?st1))"
      using Cons.prems by (intro Cons.IH) auto
    then show ?thesis by (simp add: g split_beta)
  qed
qed

lemma stored_all_returned:
  "length rs = length cs \<Longrightarrow> list_all (\<lambda>r. \<not> isl r) rs \<Longrightarrow>
   stored cs rs = map (\<lambda>(c, r). (call_key c, projr r, call_time c)) (zip cs rs)"
proof (induction cs arbitrary: rs)
  case Nil
  then show ?case by simp
next
  case (Cons c cs)
  then obtain r rs' where rs: "rs = r # rs'" by (cases rs) auto
  with Cons.prems obtain v where "r = Inr v" by (cases r) auto
  then show ?case using Cons rs by simp
qed

lemma get_or_compute_evict_front:
  assumes c: "app_cache st = b # es"
    and len: "length es \<ge> 49"
    and k: "k \<notin> fst ` set (b # es)"
    and old: "\<forall>x \<in> set es. snd (snd b) \<le> snd (snd x)" "snd (snd b) \<le> now"
    and f: "f (env st) = (Inr v, e')"
  shows "get_or_compute k ttl now f st =
           (Inr v, \<lparr>app_cache = es @ [(k, v, now)],
                    env = logger_info ''Cache cleanup ejecutado'' e'\<rparr>)"
proof -
  have "map_of (app_cache st) k = None" using k c by (simp add: map_of_eq_None_iff)
  then have miss: "\<not> is_hit (app_cache st) k ttl now" by (simp add: is_hit_def)
  have c1: "dict_set k (v, now) (app_cache st) = b # es @ [(k, v, now)]"
    using dict_set_absent [of k "b # es" "(v, now)"] k c by simp
  have "py_min_key (b # es @ [(k, v, now)]) = Inr (fst b)"
    using old by (intro py_min_key_first) auto
  moreover have "dict_del (fst b) (b # es @ [(k, v, now)]) = es @ [(k, v, now)]" by simp
  ultimately have "store_result k v now (st\<lparr>env := e'\<rparr>) =
      (Inr v, \<lparr>app_cache = es @ [(k, v, now)],
               env = logger_info ''Cache cleanup ejecutado'' e'\<rparr>)"
    using len by (simp add: store_result_def c1)
  then show ?thesis
    using miss f by (simp add: get_or_compute_miss compute_and_store_return)
qed

lemma run_calls_overflow:
  assumes len: "length cs = 51"
    and dk: "distinct (map call_key cs)"
    and srt: "sorted (map call_time cs)"
    and ret: "list_all (\<lambda>r. \<not> isl r) (fst (run_calls cs \<lparr>app_cache = [], env = ienv\<rparr>))"
  shows "app_cache (snd (run_calls cs \<lparr>app_cache = [], env = ienv\<rparr>)) =
           tl (map (\<lambda>(c, r). (call_key c, projr r, call_time c))
                  (zip cs (fst (run_calls cs \<lparr>app_cache = [], env = ienv\<rparr>))))"
proof -
  let ?init = "\<lparr>app_cache = [], env = ienv\<rparr> :: ('a, 'b) state"
  let ?E = "\<lambda>(c :: ('a, 'b) call, r :: exn + 'a). (call_key c, projr r, call_time c)"
  define xs where "xs = butlast cs"
  define c where "c = last cs"
  have cs: "cs = xs @ [c]" using len by (simp add: xs_def c_def) (metis append_butlast_last_id length_0_conv zero_neq_numeral)
  have lxs: "length xs = 50" using len by (simp add: xs_def)
  obtain rs st50 where r50: "run_calls xs ?init = (rs, st50)" by (cases "run_calls xs ?init")
  let ?k = "call_key c"
  let ?t = "call_time c"
  obtain r st51 where g: "get_or_compute ?k (call_ttl c) ?t (call_compute c) st50 = (r, st51)"
    by (cases "get_or_compute ?k (call_ttl c) ?t (call_compute c) st50")
  have run: "run_calls cs ?init = (rs @ [r], st51)"
    by (simp add: cs run_calls_append r50 g)
  have lrs: "length rs = 50" using length_run_calls [of xs ?init] lxs by (simp add: r50)
  have allr: "list_all (\<lambda>r. \<not> isl r) rs" and rr: "\<not> isl r"
    using ret by (simp_all add: run)
  have "app_cache (snd (run_calls xs ?init)) =
      app_cache ?init @ stored xs (fst (run_calls xs ?init))"
    using dk lxs by (intro run_calls_fill) (simp_all add: cs)
  then have c50: "app_cache st50 = map ?E (zip xs rs)"
    using stored_all_returned [of rs xs] allr lrs lxs by (simp add: r50)
  have keys50: "map fst (app_cache st50) = map call_key xs"
    unfolding c50 using lrs lxs by (intro nth_equalityI) simp_all
  have times50: "map (\<lambda>e. snd (snd e)) (app_cache st50) = map call_time xs"
    unfolding c50 using lrs lxs by (intro nth_equalityI) simp_all
  have "length (app_cache st50) = 50" using lrs lxs by (simp add: c50)
  then obtain b es where bes: "app_cache st50 = b # es" and les: "length es = 49"
    by (cases "app_cache st50") auto
  have knew: "?k \<notin> fst ` set (b # es)"
  proof -
    have "?k \<notin> set (map call_key xs)" using dk by (simp add: cs)
    then show ?thesis using keys50 bes by (metis set_map)
  qed
  have s1: "sorted (map call_time xs)" and s2: "\<forall>x \<in> set xs. call_time x \<le> ?t"
    using srt by (auto simp: cs sorted_append)
  have sb: "sorted (map (\<lambda>e. snd (snd e)) (b # es))"
    using s1 times50 bes by simp
  then have old1: "\<forall>x \<in> set es. snd (snd b) \<le> snd (snd x)" by auto
  have "snd (snd b) \<in> set (map call_time xs)"
    using times50 bes by (metis list.set_intros(1) list.simps(9))
  then have old2: "snd (snd b) \<le> ?t" using s2 by auto
  have "map_of (app_cache st50) ?k = None"
    using knew bes by (simp add: map_of_eq_None_iff)
  then have miss: "\<not> is_hit (app_cache st50) ?k (call_ttl c) ?t" by (simp add: is_hit_def)
  have "fst (call_compute c (env st50)) = r"
    using get_or_compute_fst_miss [OF miss, of "call_compute c"] g by simp
  then obtain v e' where f: "call_compute c (env st50) = (Inr v, e')" and rv: "r = Inr v"
    using rr by (cases "call_compute c (env st50)"; cases r) auto
  have "get_or_compute ?k (call_ttl c) ?t (call_compute c) st50 =
      (Inr v, \<lparr>app_cache = es @ [(?k, v, ?t)],
               env = logger_info ''Cache cleanup ejecutado'' e'\<rparr>)"
    using bes les knew old1 old2 f by (intro get_or_compute_evict_front) simp_all
  then have fin: "app_cache st51 = es @ [(?k, v, ?t)]" using g by simp
  have "map ?E (zip cs (rs @ [r])) = map ?E (zip xs rs) @ [(?k, v, ?t)]"
    using lrs lxs by (simp add: cs rv)
  moreover have "map ?E (zip xs rs) = b # es" using c50 bes by simp
  ultimately have "tl (map ?E (zip cs (rs @ [r]))) = es @ [(?k, v, ?t)]"
    by (simp only: list.sel append_Cons)
  then show ?thesis by (simp add: run fin)
qed

text \<open>
  Claim C5 (eviction at capacity). Starting from the empty dictionary, 51 calls with
  pairwise distinct keys (so each is a miss) and non-decreasing clock readings, whose
  handlers all return, leave exactly 50 entries; the key of the first call is absent,
  and the key of every other call holds the value that call returned, with that call's
  clock reading.
\<close>

theorem eviction_at_capacity:
  assumes "length cs = 51"
    and "distinct (map call_key cs)"
    and "sorted (map call_time cs)"
    and "list_all (\<lambda>r. \<not> isl r) (fst (run_calls cs \<lparr>app_cache = [], env = ienv\<rparr>))"
  shows "length (app_cache (snd (run_calls cs \<lparr>app_cache = [], env = ienv\<rparr>))) = 50 \<and>
         map_of (app_cache (snd (run_calls cs \<lparr>app_cache = [], env = ienv\<rparr>)))
           (call_key (hd cs)) = None \<and>
         (\<forall>i. 1 \<le> i \<and> i < 51 \<longrightarrow>
            (\<exists>v. fst (run_calls cs \<lparr>app_cache = [], env = ienv\<rparr>) ! i = Inr v \<and>
                 map_of (app_cache (snd (run_calls cs \<lparr>app_cache = [], env = ienv\<rparr>)))
                   (call_key (cs ! i)) = Some (v, call_time (cs ! i))))"
proof -
  let ?R = "run_calls cs \<lparr>app_cache = [], env = ienv\<rparr>"
  let ?E = "\<lambda>(c :: ('a, 'b) call, r :: exn + 'a). (call_key c, projr r, call_time c)"
  let ?S = "map ?E (zip cs (fst ?R))"
  have F: "app_cache (snd ?R) = tl ?S" using assms by (rule run_calls_overflow)
  have lrs: "length (fst ?R) = 51" using assms(1) by (simp add: length_run_calls)
  have lS: "length ?S = 51" using lrs assms(1) by simp
  have keys: "map fst ?S = map call_key cs"
    using lrs assms(1) by (intro nth_equalityI) simp_all
  have keys_tl: "map fst (tl ?S) = tl (map call_key cs)"
    using keys by (simp add: map_tl)
  have d_tl: "distinct (map fst (tl ?S))"
    unfolding keys_tl using assms(2) by (rule distinct_tl)
  have one: "length (app_cache (snd ?R)) = 50" using lS by (simp add: F)
  have "cs \<noteq> []" using assms(1) by auto
  then have "map call_key cs = call_key (hd cs) # tl (map call_key cs)"
    by (cases cs) simp_all
  then have "call_key (hd cs) \<notin> set (tl (map call_key cs))"
    using assms(2) by (metis distinct.simps(2))
  then have "call_key (hd cs) \<notin> fst ` set (tl ?S)"
    using keys_tl by (metis set_map)
  then have two: "map_of (app_cache (snd ?R)) (call_key (hd cs)) = None"
    by (simp add: F map_of_eq_None_iff)
  have three: "\<exists>v. fst ?R ! i = Inr v \<and>
      map_of (app_cache (snd ?R)) (call_key (cs ! i)) = Some (v, call_time (cs ! i))"
    if i: "1 \<le> i \<and> i < 51" for i
  proof -
    have "\<not> isl (fst ?R ! i)"
      using assms(4) i lrs by (simp add: list_all_length)
    then obtain v where v: "fst ?R ! i = Inr v" by (cases "fst ?R ! i") auto
    have Si: "?S ! i = (call_key (cs ! i), v, call_time (cs ! i))"
      using i lrs assms(1) v by simp
    have "length (tl ?S) = 50" using lS by simp
    then have lt: "i - 1 < length (tl ?S)" using i by linarith
    have idx: "Suc (i - 1) = i" using i by linarith
    have "tl ?S ! (i - 1) = ?S ! i" using nth_tl [OF lt] unfolding idx .
    then have eq: "tl ?S ! (i - 1) = (call_key (cs ! i), v, call_time (cs ! i))"
      unfolding Si .
    have "tl ?S ! (i - 1) \<in> set (tl ?S)" using lt by (rule nth_mem)
    then have "(call_key (cs ! i), v, call_time (cs ! i)) \<in> set (tl ?S)"
      unfolding eq .
    then have "map_of (tl ?S) (call_key (cs ! i)) = Some (v, call_time (cs ! i))"
      using d_tl by (rule map_of_is_SomeI [rotated])
    then show ?thesis using v by (simp add: F)
  qed
  show ?thesis using one two three by blast
qed


lemma example_calls_keys: "map call_key example_calls = map example_key [0..<51]"
  by (simp add: example_calls_def comp_def)

lemma example_calls_times: "map call_time example_calls = map real [0..<51]"
  by (simp add: example_calls_def comp_def)

lemma sorted_map_real_upt: "sorted (map real [m..<n])"
  by (simp add: sorted_map sorted_wrt_iff_nth_less del: upt.simps)

theorem eviction_at_capacity_witness:
  "length (app_cache (snd (run_calls example_calls
      \<lparr>app_cache = [], env = \<lparr>logged = [], world = 0\<rparr>\<rparr>))) = 50 \<and>
   map_of (app_cache (snd (run_calls example_calls
      \<lparr>app_cache = [], env = \<lparr>logged = [], world = 0\<rparr>\<rparr>))) ''k'' = None \<and>
   (\<exists>v. fst (run_calls example_calls \<lparr>app_cache = [], env = \<lparr>logged = [], world = 0\<rparr>\<rparr>) ! 50 = Inr v \<and>
      map_of (app_cache (snd (run_calls example_calls
      \<lparr>app_cache = [], env = \<lparr>logged = [], world = 0\<rparr>\<rparr>))) (example_key 50) = Some (v, 50))"
proof -
  have l: "length example_calls = 51" by (simp add: example_calls_def)
  have d: "distinct (map call_key example_calls)"
    unfolding example_calls_keys by (simp add: distinct_map inj_on_def example_key_inj)
  have s: "sorted (map call_time example_calls)"
    unfolding example_calls_times by (rule sorted_map_real_upt)
  have "\<forall>c \<in> set example_calls. \<forall>e. \<not> isl (fst (call_compute c e))"
    by (auto simp: example_calls_def counting_def simp del: upt.simps)
  then have r: "list_all (\<lambda>r. \<not> isl r)
      (fst (run_calls example_calls \<lparr>app_cache = [], env = \<lparr>logged = [], world = 0\<rparr>\<rparr>))"
    by (rule run_calls_all_return)
  have h: "call_key (hd example_calls) = ''k''"
    by (simp add: example_calls_def upt_conv_Cons [of 0] example_key_def del: upt.simps)
  have n: "call_key (example_calls ! 50) = example_key 50 \<and> call_time (example_calls ! 50) = 50"
    by (simp add: example_calls_def del: upt.simps)
  note E = eviction_at_capacity [OF l d s r]
  from E have "1 \<le> (50::nat) \<and> (50::nat) < 51 \<longrightarrow>
      (\<exists>v. fst (run_calls example_calls \<lparr>app_cache = [], env = \<lparr>logged = [], world = 0\<rparr>\<rparr>) ! 50 = Inr v \<and>
           map_of (app_cache (snd (run_calls example_calls
             \<lparr>app_cache = [], env = \<lparr>logged = [], world = 0\<rparr>\<rparr>)))
             (call_key (example_calls ! 50)) = Some (v, call_time (example_calls ! 50)))"
    by blast
  then have "\<exists>v. fst (run_calls example_calls \<lparr>app_cache = [], env = \<lparr>logged = [], world = 0\<rparr>\<rparr>) ! 50 = Inr v \<and>
           map_of (app_cache (snd (run_calls example_calls
             \<lparr>app_cache = [], env = \<lparr>logged = [], world = 0\<rparr>\<rparr>)))
             (example_key 50) = Some (v, 50)"
    using n by simp
  then show ?thesis using E h by simp
qed

section \<open>Failures and hits leave the dictionary as it is\<close>

lemma miss_later:
  assumes "\<not> is_hit c k ttl now" and "map_of c k = None \<or> now \<le> later"
  shows "\<not> is_hit c k ttl later"
proof (cases "map_of c k")
  case None
  then show ?thesis by (simp add: is_hit_def)
next
  case (Some p)
  obtain v t where p: "p = (v, t)" by (cases p)
  have "ttl \<le> now - t" using assms(1) Some p by (simp add: is_hit_def)
  moreover have "now \<le> later" using assms(2) Some by simp
  ultimately show ?thesis using Some p by (simp add: is_hit_def)
qed

text \<open>
  Claim C6 (failure propagation, no negative caching). When the call takes the miss path
  and the handler raises \<open>x\<close>, the call raises \<open>x\<close> and the dictionary is the one
  before the call: nothing is stored and nothing is removed. A subsequent call under
  the same key and ttl, at a reading that is not earlier (or any reading, when the key
  is absent), with a handler \<open>g\<close> that returns \<open>w\<close>, is a miss: it returns \<open>w\<close> and
  stores it as lines 54-63 store any result.
\<close>

theorem failure_is_not_cached:
  assumes "\<not> is_hit (app_cache st) k ttl now"
    and "f (env st) = (Inl x, e')"
  shows "get_or_compute k ttl now f st = (Inl x, st\<lparr>env := e'\<rparr>) \<and>
         app_cache (snd (get_or_compute k ttl now f st)) = app_cache st \<and>
         ((map_of (app_cache st) k = None \<or> now \<le> later) \<and> g e' = (Inr w, e'') \<longrightarrow>
            fst (get_or_compute k ttl later g (snd (get_or_compute k ttl now f st))) = Inr w \<and>
            get_or_compute k ttl later g (snd (get_or_compute k ttl now f st)) =
              store_result k w later (st\<lparr>env := e''\<rparr>))"
proof -
  have first: "get_or_compute k ttl now f st = (Inl x, st\<lparr>env := e'\<rparr>)"
    using assms by (simp add: get_or_compute_miss compute_and_store_raise)
  have second: "fst (get_or_compute k ttl later g (st\<lparr>env := e'\<rparr>)) = Inr w \<and>
      get_or_compute k ttl later g (st\<lparr>env := e'\<rparr>) = store_result k w later (st\<lparr>env := e''\<rparr>)"
    if "map_of (app_cache st) k = None \<or> now \<le> later" "g e' = (Inr w, e'')"
  proof -
    have "\<not> is_hit (app_cache (st\<lparr>env := e'\<rparr>)) k ttl later"
      using miss_later [OF assms(1) that(1)] by simp
    then have "get_or_compute k ttl later g (st\<lparr>env := e'\<rparr>) =
        store_result k w later (st\<lparr>env := e''\<rparr>)"
      using that(2) by (simp add: get_or_compute_miss compute_and_store_return)
    then show ?thesis by (simp add: store_result_fst)
  qed
  show ?thesis
  proof (intro conjI impI)
    show "get_or_compute k ttl now f st = (Inl x, st\<lparr>env := e'\<rparr>)" by (rule first)
    show "app_cache (snd (get_or_compute k ttl now f st)) = app_cache st" by (simp add: first)
    assume "(map_of (app_cache st) k = None \<or> now \<le> later) \<and> g e' = (Inr w, e'')"
    then have s: "fst (get_or_compute k ttl later g (st\<lparr>env := e'\<rparr>)) = Inr w \<and>
        get_or_compute k ttl later g (st\<lparr>env := e'\<rparr>) =
          store_result k w later (st\<lparr>env := e''\<rparr>)"
      using second by blast
    show "fst (get_or_compute k ttl later g (snd (get_or_compute k ttl now f st))) = Inr w"
      using s by (simp add: first store_result_fst)
    show "get_or_compute k ttl later g (snd (get_or_compute k ttl now f st)) =
        store_result k w later (st\<lparr>env := e''\<rparr>)"
      using s by (simp add: first)
  qed
qed

theorem failure_is_not_cached_witness:
  "get_or_compute ''k'' 10 20 (raising (OtherException ''boom''))
       \<lparr>app_cache = [(''k'', 7::nat, 0)], env = \<lparr>logged = [], world = 0\<rparr>\<rparr> =
     (Inl (OtherException ''boom''),
      \<lparr>app_cache = [(''k'', 7::nat, 0)], env = \<lparr>logged = [], world = 1\<rparr>\<rparr>) \<and>
   get_or_compute ''k'' 10 25 counting
       (snd (get_or_compute ''k'' 10 20 (raising (OtherException ''boom''))
          \<lparr>app_cache = [(''k'', 7::nat, 0)], env = \<lparr>logged = [], world = 0\<rparr>\<rparr>)) =
     (Inr 1, \<lparr>app_cache = [(''k'', 1, 25)], env = \<lparr>logged = [], world = 2\<rparr>\<rparr>)"
  using failure_is_not_cached [where
      st = "\<lparr>app_cache = [(''k'', 7::nat, 0)], env = \<lparr>logged = [], world = 0\<rparr>\<rparr>"
      and k = "''k''" and ttl = 10 and now = 20 and f = "raising (OtherException ''boom'')"
      and x = "OtherException ''boom''" and e' = "\<lparr>logged = [], world = 1\<rparr>"
      and later = 25 and g = counting and w = 1 and e'' = "\<lparr>logged = [], world = 2\<rparr>"]
  by (simp add: get_or_compute_def compute_and_store_def store_result_def is_hit_def
      raising_def counting_def numeral_2_eq_2)

text \<open>
  Claim C8 (a hit changes no entry). When the key is present with entry \<open>(v, t)\<close> and
  \<open>now - t < ttl\<close>, the dictionary after the call is the dictionary before it; the
  key still holds \<open>(v, t)\<close>, so its timestamp is not refreshed. Expiry is still counted
  from \<open>t\<close>: a further call at a reading \<open>later\<close> with \<open>ttl \<le> later - t\<close> takes
  the miss path, however close \<open>later\<close> is to the reading of the hit.
\<close>

theorem hit_leaves_cache_unchanged:
  assumes "map_of (app_cache st) k = Some (v, t)"
    and "now - t < ttl"
  shows "app_cache (snd (get_or_compute k ttl now f st)) = app_cache st \<and>
         map_of (app_cache (snd (get_or_compute k ttl now f st))) k = Some (v, t) \<and>
         (ttl \<le> later - t \<longrightarrow>
            get_or_compute k ttl later g (snd (get_or_compute k ttl now f st)) =
              compute_and_store k later g (snd (get_or_compute k ttl now f st)) \<and>
            fst (get_or_compute k ttl later g (snd (get_or_compute k ttl now f st))) =
              fst (g (env (snd (get_or_compute k ttl now f st)))))"
proof -
  let ?st1 = "snd (get_or_compute k ttl now f st)"
  have c: "app_cache ?st1 = app_cache st"
    using assms by (simp add: get_or_compute_hit)
  have "\<not> is_hit (app_cache ?st1) k ttl later" if "ttl \<le> later - t"
    using that assms(1) by (simp add: c is_hit_def)
  then show ?thesis
    using c assms(1) by (simp add: get_or_compute_miss compute_and_store_fst)
qed

theorem hit_leaves_cache_unchanged_witness:
  "app_cache (snd (get_or_compute ''k'' 10 9 counting
       \<lparr>app_cache = [(''k'', 7, 0)], env = \<lparr>logged = [], world = 0\<rparr>\<rparr>)) = [(''k'', 7, 0)] \<and>
   fst (get_or_compute ''k'' 10 11 counting
       (snd (get_or_compute ''k'' 10 9 counting
          \<lparr>app_cache = [(''k'', 7, 0)], env = \<lparr>logged = [], world = 0\<rparr>\<rparr>))) = Inr 0"
  using hit_leaves_cache_unchanged [where
      st = "\<lparr>app_cache = [(''k'', 7, 0)], env = \<lparr>logged = [], world = 0\<rparr>\<rparr>"
      and k = "''k''" and v = 7 and t = 0 and now = 9 and ttl = 10 and f = counting
      and later = 11 and g = counting]
  by (simp add: counting_def get_or_compute_def logger_info_def)

section \<open>Key isolation\<close>

text \<open>
  Claim C7 (key isolation) does not hold as stated: a call on one key evicts another
  key when its insertion takes the dictionary over 50 entries. Here the call on
  \<^verbatim>\<open>new\<close> removes the key \<^verbatim>\<open>k\<close> of the example dictionary.
\<close>

theorem key_isolation_counterexample:
  "''new'' \<noteq> ''k'' \<and>
   map_of full_cache ''k'' = Some (0, 0) \<and>
   map_of (app_cache (snd (get_or_compute ''new'' 10 50 counting
      \<lparr>app_cache = full_cache, env = \<lparr>logged = [], world = 0\<rparr>\<rparr>))) ''k'' = None"
proof -
  have "counting \<lparr>logged = [], world = 0\<rparr> = (Inr 0, \<lparr>logged = [], world = 1\<rparr>)"
    by (simp add: counting_def)
  then have "get_or_compute ''new'' 10 50 counting
      \<lparr>app_cache = full_cache, env = \<lparr>logged = [], world = 0\<rparr>\<rparr> =
      (Inr 0, \<lparr>app_cache = tl full_cache @ [(''new'', 0, 50)],
               env = logger_info ''Cache cleanup ejecutado'' \<lparr>logged = [], world = 1\<rparr>\<rparr>)"
    by (intro full_cache_evict) simp_all
  then have c: "app_cache (snd (get_or_compute ''new'' 10 50 counting
      \<lparr>app_cache = full_cache, env = \<lparr>logged = [], world = 0\<rparr>\<rparr>)) =
      tl full_cache @ [(''new'', 0, 50)]"
    by simp
  have "map_of (app_cache (snd (get_or_compute ''new'' 10 50 counting
      \<lparr>app_cache = full_cache, env = \<lparr>logged = [], world = 0\<rparr>\<rparr>))) ''k'' = None"
    unfolding c by (rule k_not_in_tl_full_cache)
  moreover have "''new'' \<noteq> ''k''" by simp
  ultimately show ?thesis using k_in_full_cache by blast
qed

text \<open>
  Claim C7 as amended. For two distinct keys and every dictionary, a call on the first
  key leaves the entry of the second as it is (present with the same value and
  timestamp, or absent), except when the call is a miss whose handler returns, its
  assignment leaves more than 50 entries and the second key is the key of an entry with
  the smallest timestamp, which the cleanup removes: then the second key is absent
  afterwards. In particular nothing changes for the second key when the dictionary
  holds fewer than 50 entries before the call.
\<close>

theorem key_isolation_up_to_eviction:
  assumes "distinct (map fst (app_cache st))"
    and "k1 \<noteq> k2"
  shows "(map_of (app_cache (snd (get_or_compute k1 ttl now f st))) k2 =
            map_of (app_cache st) k2 \<or>
          map_of (app_cache (snd (get_or_compute k1 ttl now f st))) k2 = None \<and>
          \<not> is_hit (app_cache st) k1 ttl now \<and>
          (\<exists>v. fst (f (env st)) = Inr v \<and>
               length (dict_set k1 (v, now) (app_cache st)) > 50 \<and>
               (\<exists>e \<in> set (dict_set k1 (v, now) (app_cache st)). fst e = k2 \<and>
                  (\<forall>x \<in> set (dict_set k1 (v, now) (app_cache st)).
                     snd (snd e) \<le> snd (snd x))))) \<and>
         (length (app_cache st) < 50 \<longrightarrow>
            map_of (app_cache (snd (get_or_compute k1 ttl now f st))) k2 =
              map_of (app_cache st) k2)"
proof (cases "is_hit (app_cache st) k1 ttl now")
  case True
  then obtain v t where "map_of (app_cache st) k1 = Some (v, t)" "now - t < ttl"
    by (auto simp: is_hit_iff)
  then show ?thesis by (simp add: get_or_compute_hit)
next
  case False
  obtain r e' where f: "f (env st) = (r, e')" by (cases "f (env st)")
  show ?thesis
  proof (cases r)
    case (Inl x)
    then show ?thesis
      using False f by (simp add: get_or_compute_miss compute_and_store_raise)
  next
    case (Inr v)
    let ?c1 = "dict_set k1 (v, now) (app_cache st)"
    let ?s = "st\<lparr>env := e'\<rparr>"
    let ?c' = "app_cache (snd (get_or_compute k1 ttl now f st))"
    have goc: "get_or_compute k1 ttl now f st = store_result k1 v now ?s"
      using False f Inr by (simp add: get_or_compute_miss compute_and_store_return)
    have m1: "map_of ?c1 k2 = map_of (app_cache st) k2"
      using assms(2) by (simp add: map_of_dict_set)
    have fv: "fst (f (env st)) = Inr v" using f Inr by simp
    show ?thesis
    proof (cases "length ?c1 > 50")
      case small: False
      then have "?c' = ?c1" using store_result_cache [of k1 v now ?s] by (simp add: goc)
      moreover have "length (app_cache st) < 50 \<longrightarrow> \<not> length ?c1 > 50"
        by (simp add: length_dict_set)
      ultimately show ?thesis using m1 by simp
    next
      case big: True
      then obtain e where e: "e \<in> set ?c1" "\<forall>x \<in> set ?c1. snd (snd e) \<le> snd (snd x)"
          "?c' = dict_del (fst e) ?c1"
        using store_result_cache [of k1 v now ?s] by (auto simp: goc)
      have d1: "distinct (map fst ?c1)" using assms(1) by (rule distinct_dict_set)
      have nlt: "\<not> length (app_cache st) < 50"
        using big by (simp add: length_dict_set split: if_splits)
      show ?thesis
      proof (cases "fst e = k2")
        case True
        have "map_of ?c' k2 = None"
          using d1 map_of_dict_del_same [of ?c1 "fst e"] by (simp add: e(3) True)
        then show ?thesis
          using False fv big e(1,2) True nlt by blast
      next
        case False
        then have "map_of ?c' k2 = map_of ?c1 k2"
          by (simp add: e(3) map_of_dict_del_other)
        then show ?thesis using m1 nlt by simp
      qed
    qed
  qed
qed

theorem key_isolation_up_to_eviction_witness:
  "map_of (app_cache (snd (get_or_compute ''a'' 10 5 counting
      \<lparr>app_cache = [(''b'', 7, 0)], env = \<lparr>logged = [], world = 0\<rparr>\<rparr>))) ''b'' = Some (7, 0)"
  using key_isolation_up_to_eviction [where
      st = "\<lparr>app_cache = [(''b'', 7, 0)], env = \<lparr>logged = [], world = 0\<rparr>\<rparr>"
      and ?k1.0 = "''a''" and ?k2.0 = "''b''" and ttl = 10 and now = 5 and f = counting]
  by simp

section \<open>Two calls under one key\<close>

lemma dict_del_snoc_absent: "k \<notin> fst ` set c \<Longrightarrow> dict_del k (c @ [(k, v)]) = c"
  by (induction c) auto

lemma store_result_survives:
  assumes "entry_survives (app_cache st) k v now"
  shows "map_of (app_cache (snd (store_result k v now st))) k = Some (v, now)"
proof -
  let ?c1 = "dict_set k (v, now) (app_cache st)"
  have m: "map_of ?c1 k = Some (v, now)" by (simp add: map_of_dict_set)
  show ?thesis
  proof (cases "length ?c1 \<le> 50")
    case True
    then show ?thesis using m by (simp add: store_result_small)
  next
    case False
    then have big: "length ?c1 > 50" by simp
    then have "?c1 \<noteq> []" by auto
    then obtain ko where ko: "py_min_key ?c1 = Inr ko"
      by (cases ?c1) (simp_all add: py_min_key_def)
    have sr: "store_result k v now st =
        (Inr v, \<lparr>app_cache = dict_del ko ?c1,
                 env = logger_info ''Cache cleanup ejecutado'' (env st)\<rparr>)"
      using big ko by (simp add: store_result_def)
    have "ko \<noteq> k" using assms False ko by (auto simp: entry_survives_def)
    then show ?thesis using m by (simp add: sr map_of_dict_del_other)
  qed
qed

lemma store_result_evicted:
  assumes "distinct (map fst (app_cache st))"
    and "\<not> entry_survives (app_cache st) k v now"
  shows "map_of (app_cache (snd (store_result k v now st))) k = None"
proof -
  let ?c1 = "dict_set k (v, now) (app_cache st)"
  have big: "length ?c1 > 50" and pm: "py_min_key ?c1 = Inr k"
    using assms(2) by (auto simp: entry_survives_def)
  have d: "distinct (map fst ?c1)" using assms(1) by (rule distinct_dict_set)
  have "store_result k v now st =
      (Inr v, \<lparr>app_cache = dict_del k ?c1,
               env = logger_info ''Cache cleanup ejecutado'' (env st)\<rparr>)"
    using big pm by (simp add: store_result_def)
  then show ?thesis using d by (simp add: map_of_dict_del_same)
qed

lemma cache_ok_survives:
  assumes "cache_ok now c"
  shows "entry_survives c k v now"
proof (rule ccontr)
  assume n: "\<not> entry_survives c k v now"
  let ?st = "\<lparr>app_cache = c, env = \<lparr>logged = [], world = ()\<rparr>\<rparr>"
  have "distinct (map fst (app_cache ?st))" using assms by (simp add: cache_ok_def)
  moreover have "\<not> entry_survives (app_cache ?st) k v now" using n by simp
  ultimately have "map_of (app_cache (snd (store_result k v now ?st))) k = None"
    by (rule store_result_evicted)
  moreover have "cache_ok now (app_cache ?st)" using assms by simp
  from store_result_keeps_key [OF this, of k v]
  have "map_of (app_cache (snd (store_result k v now ?st))) k = Some (v, now)" by auto
  ultimately show False by simp
qed

lemma miss_then_hit_if_survives:
  assumes miss: "\<not> is_hit (app_cache st) k ttl now"
    and ret: "f (env st) = (Inr v, e')"
    and keep: "entry_survives (app_cache st) k v now"
    and win: "later - now < ttl'"
  shows "\<exists>st'. get_or_compute k ttl now f st = (Inr v, st') \<and>
           world (env st') = world e' \<and>
           map_of (app_cache st') k = Some (v, now) \<and>
           get_or_compute k ttl' later g st' =
             (Inr v, st'\<lparr>env := logger_info (''Cache hit para '' @ k) (env st')\<rparr>)"
proof -
  let ?s = "st\<lparr>env := e'\<rparr>"
  let ?st' = "snd (store_result k v now ?s)"
  have goc: "get_or_compute k ttl now f st = store_result k v now ?s"
    using miss ret by (simp add: get_or_compute_miss compute_and_store_return)
  have r: "store_result k v now ?s = (Inr v, ?st')"
    using store_result_fst [of k v now ?s] by (cases "store_result k v now ?s") simp
  have w: "world (env ?st') = world e'" using store_result_world [of k v now ?s] by simp
  have "entry_survives (app_cache ?s) k v now" using keep by simp
  then have m: "map_of (app_cache ?st') k = Some (v, now)" by (rule store_result_survives)
  have "get_or_compute k ttl' later g ?st' =
      (Inr v, ?st'\<lparr>env := logger_info (''Cache hit para '' @ k) (env ?st')\<rparr>)"
    using m win by (rule get_or_compute_hit)
  then show ?thesis using goc r w m by (intro exI [of _ ?st']) simp
qed

lemma miss_then_miss_if_evicted:
  assumes miss: "\<not> is_hit (app_cache st) k ttl now"
    and ret: "f (env st) = (Inr v, e')"
    and d: "distinct (map fst (app_cache st))"
    and gone: "\<not> entry_survives (app_cache st) k v now"
  shows "get_or_compute k ttl' later g (snd (get_or_compute k ttl now f st)) =
           compute_and_store k later g (snd (get_or_compute k ttl now f st))"
proof -
  let ?s = "st\<lparr>env := e'\<rparr>"
  have goc: "get_or_compute k ttl now f st = store_result k v now ?s"
    using miss ret by (simp add: get_or_compute_miss compute_and_store_return)
  have "map_of (app_cache (snd (store_result k v now ?s))) k = None"
    using d gone by (intro store_result_evicted) simp_all
  then have "\<not> is_hit (app_cache (snd (get_or_compute k ttl now f st))) k ttl' later"
    by (simp add: goc is_hit_def)
  then show ?thesis by (rule get_or_compute_miss)
qed

subsection \<open>A dictionary of later readings\<close>

lemma late_cache_keys: "map fst late_cache = map example_key [0..<50]"
  by (simp add: late_cache_def comp_def)

lemma length_late_cache: "length late_cache = 50"
  by (simp add: late_cache_def)

lemma new_not_in_late_cache: "''new'' \<notin> fst ` set late_cache"
proof -
  have "''new'' \<notin> set (map fst late_cache)"
    unfolding late_cache_keys by (auto simp: example_key_def simp del: upt.simps)
  then show ?thesis by simp
qed

lemma late_cache_stamps: "x \<in> set late_cache \<Longrightarrow> 100 \<le> snd (snd x)"
  by (auto simp: late_cache_def simp del: upt.simps)

lemma get_or_compute_self_evict:
  assumes k: "k \<notin> fst ` set (app_cache st)"
    and len: "length (app_cache st) \<ge> 50"
    and late: "\<forall>x \<in> set (app_cache st). now < snd (snd x)"
    and f: "f (env st) = (Inr v, e')"
  shows "get_or_compute k ttl now f st =
           (Inr v, \<lparr>app_cache = app_cache st,
                    env = logger_info ''Cache cleanup ejecutado'' e'\<rparr>)"
proof -
  let ?c = "app_cache st"
  have "map_of ?c k = None" using k by (simp add: map_of_eq_None_iff)
  then have miss: "\<not> is_hit ?c k ttl now" by (simp add: is_hit_def)
  have c1: "dict_set k (v, now) ?c = ?c @ [(k, v, now)]" using k by (rule dict_set_absent)
  from len obtain b es where bes: "?c = b # es" by (cases ?c) auto
  have "snd (snd (k, v, now)) < snd (snd (min_by_timestamp b es))"
    using late min_by_timestamp_mem [of b es] bes by auto
  then have "min_by_timestamp b (es @ [(k, v, now)]) = (k, v, now)"
    by (simp add: min_by_timestamp_snoc)
  then have pm: "py_min_key (?c @ [(k, v, now)]) = Inr k"
    by (simp add: py_min_key_def bes)
  have dd: "dict_del k (?c @ [(k, v, now)]) = ?c" using k by (rule dict_del_snoc_absent)
  have "store_result k v now (st\<lparr>env := e'\<rparr>) =
      (Inr v, \<lparr>app_cache = ?c, env = logger_info ''Cache cleanup ejecutado'' e'\<rparr>)"
    using len by (simp add: store_result_def c1 pm dd)
  then show ?thesis using miss f by (simp add: get_or_compute_miss compute_and_store_return)
qed

lemma late_entry_not_survives:
  assumes k: "k \<notin> fst ` set c"
    and len: "length c \<ge> 50"
    and late: "\<forall>x \<in> set c. now < snd (snd x)"
  shows "\<not> entry_survives c k v now"
proof -
  have c1: "dict_set k (v, now) c = c @ [(k, v, now)]" using k by (rule dict_set_absent)
  from len obtain b es where bes: "c = b # es" by (cases c) auto
  have "snd (snd (k, v, now)) < snd (snd (min_by_timestamp b es))"
    using late min_by_timestamp_mem [of b es] bes by auto
  then have "min_by_timestamp b (es @ [(k, v, now)]) = (k, v, now)"
    by (simp add: min_by_timestamp_snoc)
  then have "py_min_key (c @ [(k, v, now)]) = Inr k"
    by (simp add: py_min_key_def bes)
  then show ?thesis using len by (simp add: entry_survives_def c1)
qed

text \<open>
  Claim C1 (cache hit within the TTL) does not hold as stated for the two calls. On a
  dictionary of 50 entries that carry later readings, the first call stores its result
  and the cleanup removes that very entry, as the one with the smallest timestamp; the
  second call, one second later and well within the ttl of 10, runs the handler again
  and returns another result.
\<close>

theorem two_calls_recompute_counterexample:
  "\<not> is_hit late_cache ''new'' 10 5 \<and>
   (6::real) - 5 < 10 \<and>
   fst (get_or_compute ''new'' 10 5 counting
      \<lparr>app_cache = late_cache, env = \<lparr>logged = [], world = 0\<rparr>\<rparr>) = Inr 0 \<and>
   fst (get_or_compute ''new'' 10 6 counting
      (snd (get_or_compute ''new'' 10 5 counting
         \<lparr>app_cache = late_cache, env = \<lparr>logged = [], world = 0\<rparr>\<rparr>))) = Inr 1 \<and>
   world (env (snd (get_or_compute ''new'' 10 6 counting
      (snd (get_or_compute ''new'' 10 5 counting
         \<lparr>app_cache = late_cache, env = \<lparr>logged = [], world = 0\<rparr>\<rparr>))))) = 2"
proof -
  let ?st = "\<lparr>app_cache = late_cache, env = \<lparr>logged = [], world = 0::nat\<rparr>\<rparr>"
  let ?e1 = "\<lparr>logged = [], world = 1::nat\<rparr>"
  let ?st1 = "\<lparr>app_cache = late_cache, env = logger_info ''Cache cleanup ejecutado'' ?e1\<rparr>"
  let ?e2 = "\<lparr>logged = [(INFO, ''Cache cleanup ejecutado'')], world = 2::nat\<rparr>"
  let ?st2 = "\<lparr>app_cache = late_cache, env = logger_info ''Cache cleanup ejecutado'' ?e2\<rparr>"
  have absent: "''new'' \<notin> fst ` set late_cache" by (rule new_not_in_late_cache)
  have "map_of late_cache ''new'' = None" using absent by (simp add: map_of_eq_None_iff)
  then have miss: "\<not> is_hit late_cache ''new'' 10 5" by (simp add: is_hit_def)
  have late5: "\<forall>x \<in> set late_cache. 5 < snd (snd x)"
    using late_cache_stamps by fastforce
  have late6: "\<forall>x \<in> set late_cache. 6 < snd (snd x)"
    using late_cache_stamps by fastforce
  have f1: "counting (env ?st) = (Inr 0, ?e1)" by (simp add: counting_def)
  have "get_or_compute ''new'' 10 5 counting ?st =
      (Inr 0, \<lparr>app_cache = app_cache ?st, env = logger_info ''Cache cleanup ejecutado'' ?e1\<rparr>)"
  proof (rule get_or_compute_self_evict [where st = ?st and f = counting, OF _ _ _ f1])
    show "''new'' \<notin> fst ` set (app_cache ?st)" using absent by simp
    show "50 \<le> length (app_cache ?st)" by (simp add: length_late_cache)
    show "\<forall>x \<in> set (app_cache ?st). 5 < snd (snd x)" using late5 by simp
  qed
  then have first: "get_or_compute ''new'' 10 5 counting ?st = (Inr 0, ?st1)" by simp
  have f2: "counting (env ?st1) = (Inr 1, ?e2)"
    by (simp add: counting_def logger_info_def numeral_2_eq_2)
  have "get_or_compute ''new'' 10 6 counting ?st1 =
      (Inr 1, \<lparr>app_cache = app_cache ?st1, env = logger_info ''Cache cleanup ejecutado'' ?e2\<rparr>)"
  proof (rule get_or_compute_self_evict [where st = ?st1 and f = counting, OF _ _ _ f2])
    show "''new'' \<notin> fst ` set (app_cache ?st1)" using absent by simp
    show "50 \<le> length (app_cache ?st1)" by (simp add: length_late_cache)
    show "\<forall>x \<in> set (app_cache ?st1). 6 < snd (snd x)" using late6 by simp
  qed
  then have second: "get_or_compute ''new'' 10 6 counting ?st1 = (Inr 1, ?st2)" by simp
  have s1: "snd (get_or_compute ''new'' 10 5 counting ?st) = ?st1" by (simp only: first snd_conv)
  have r1: "fst (get_or_compute ''new'' 10 5 counting ?st) = Inr 0" by (simp only: first fst_conv)
  have r2: "fst (get_or_compute ''new'' 10 6 counting
      (snd (get_or_compute ''new'' 10 5 counting ?st))) = Inr 1"
    unfolding s1 by (simp only: second fst_conv)
  have w2: "world (env (snd (get_or_compute ''new'' 10 6 counting
      (snd (get_or_compute ''new'' 10 5 counting ?st))))) = 2"
    unfolding s1 second by (simp add: logger_info_def)
  have "(6::real) - 5 < 10" by simp
  then show ?thesis using miss r1 r2 w2 by blast
qed

text \<open>
  Claim C1 as amended. For every state, key, ttl and handler: when the key is present
  with entry \<open>(v, t)\<close> and \<open>now - t < ttl\<close>, the call returns \<open>v\<close> and the state
  changes by one log record only, whatever the handler is: the handler is not invoked.
  Two calls under one key, the first a miss whose handler returns \<open>w\<close> leaving the
  environment \<open>e'\<close>, the second at a reading \<open>later\<close> with \<open>later - now < ttl\<close>:
  if the cleanup of the first call does not remove the entry that call has just stored
  (\<open>entry_survives\<close>), the second call returns \<open>w\<close> and the world is still that of
  \<open>e'\<close>, so the handler ran exactly once; if it does remove it, the second call takes
  the miss path and runs the handler again. The entry survives in every dictionary
  with distinct keys, at most 50 entries and no timestamp later than \<open>now\<close>
  (\<open>cache_ok\<close>).
\<close>

theorem cache_hit_within_ttl:
  "(map_of (app_cache st) k = Some (v, t) \<and> now - t < ttl \<longrightarrow>
      get_or_compute k ttl now f st =
        (Inr v, st\<lparr>env := logger_info (''Cache hit para '' @ k) (env st)\<rparr>)) \<and>
   (\<not> is_hit (app_cache st) k ttl now \<and> f (env st) = (Inr w, e') \<and> later - now < ttl \<longrightarrow>
      (entry_survives (app_cache st) k w now \<longrightarrow>
         (\<exists>st'. get_or_compute k ttl now f st = (Inr w, st') \<and>
            world (env st') = world e' \<and>
            map_of (app_cache st') k = Some (w, now) \<and>
            fst (get_or_compute k ttl later f st') = Inr w \<and>
            world (env (snd (get_or_compute k ttl later f st'))) = world e')) \<and>
      (distinct (map fst (app_cache st)) \<and> \<not> entry_survives (app_cache st) k w now \<longrightarrow>
         get_or_compute k ttl later f (snd (get_or_compute k ttl now f st)) =
           compute_and_store k later f (snd (get_or_compute k ttl now f st)) \<and>
         fst (get_or_compute k ttl later f (snd (get_or_compute k ttl now f st))) =
           fst (f (env (snd (get_or_compute k ttl now f st)))))) \<and>
   (cache_ok now (app_cache st) \<longrightarrow> entry_survives (app_cache st) k w now)"
proof (intro conjI impI)
  assume "map_of (app_cache st) k = Some (v, t) \<and> now - t < ttl"
  then show "get_or_compute k ttl now f st =
        (Inr v, st\<lparr>env := logger_info (''Cache hit para '' @ k) (env st)\<rparr>)"
    by (simp add: get_or_compute_hit)
next
  assume a: "\<not> is_hit (app_cache st) k ttl now \<and> f (env st) = (Inr w, e') \<and> later - now < ttl"
    and s: "entry_survives (app_cache st) k w now"
  from a s obtain st' where st':
    "get_or_compute k ttl now f st = (Inr w, st')"
    "world (env st') = world e'"
    "map_of (app_cache st') k = Some (w, now)"
    "get_or_compute k ttl later f st' =
       (Inr w, st'\<lparr>env := logger_info (''Cache hit para '' @ k) (env st')\<rparr>)"
    using miss_then_hit_if_survives [where st = st and f = f and g = f and k = k and ttl = ttl
        and ttl' = ttl and now = now and later = later and v = w and e' = e']
    by blast
  show "\<exists>st'. get_or_compute k ttl now f st = (Inr w, st') \<and>
            world (env st') = world e' \<and>
            map_of (app_cache st') k = Some (w, now) \<and>
            fst (get_or_compute k ttl later f st') = Inr w \<and>
            world (env (snd (get_or_compute k ttl later f st'))) = world e'"
    using st' by (intro exI [of _ st']) (simp add: logger_info_def)
next
  assume a: "\<not> is_hit (app_cache st) k ttl now \<and> f (env st) = (Inr w, e') \<and> later - now < ttl"
    and g: "distinct (map fst (app_cache st)) \<and> \<not> entry_survives (app_cache st) k w now"
  then show m: "get_or_compute k ttl later f (snd (get_or_compute k ttl now f st)) =
           compute_and_store k later f (snd (get_or_compute k ttl now f st))"
    using miss_then_miss_if_evicted [where st = st and f = f and g = f] by blast
  show "fst (get_or_compute k ttl later f (snd (get_or_compute k ttl now f st))) =
           fst (f (env (snd (get_or_compute k ttl now f st))))"
    unfolding m by (rule compute_and_store_fst)
next
  assume "cache_ok now (app_cache st)"
  then show "entry_survives (app_cache st) k w now" by (rule cache_ok_survives)
qed

theorem cache_hit_within_ttl_witness:
  "get_or_compute ''k'' 10 103 counting
       \<lparr>app_cache = [(''k'', 7, 100)], env = \<lparr>logged = [], world = 0\<rparr>\<rparr> =
     (Inr 7, \<lparr>app_cache = [(''k'', 7, 100)],
              env = \<lparr>logged = [(INFO, ''Cache hit para k'')], world = 0\<rparr>\<rparr>) \<and>
   (\<exists>st'. get_or_compute ''k'' 10 100 counting
             \<lparr>app_cache = [], env = \<lparr>logged = [], world = 0\<rparr>\<rparr> = (Inr 0, st') \<and>
          world (env st') = 1 \<and>
          map_of (app_cache st') ''k'' = Some (0, 100) \<and>
          fst (get_or_compute ''k'' 10 105 counting st') = Inr 0 \<and>
          world (env (snd (get_or_compute ''k'' 10 105 counting st'))) = 1) \<and>
   fst (get_or_compute ''new'' 10 6 counting
      (snd (get_or_compute ''new'' 10 5 counting
         \<lparr>app_cache = late_cache, env = \<lparr>logged = [], world = 0\<rparr>\<rparr>))) =
     fst (counting (env (snd (get_or_compute ''new'' 10 5 counting
         \<lparr>app_cache = late_cache, env = \<lparr>logged = [], world = 0\<rparr>\<rparr>))))"
proof -
  let ?sa = "\<lparr>app_cache = [(''k'', 7::nat, 100)], env = \<lparr>logged = [], world = 0::nat\<rparr>\<rparr>"
  let ?sb = "\<lparr>app_cache = [], env = \<lparr>logged = [], world = 0::nat\<rparr>\<rparr> :: (nat, nat) state"
  let ?sc = "\<lparr>app_cache = late_cache, env = \<lparr>logged = [], world = 0::nat\<rparr>\<rparr>"
  let ?e1 = "\<lparr>logged = [], world = 1::nat\<rparr>"
  have A: "get_or_compute ''k'' 10 103 counting ?sa =
      (Inr 7, \<lparr>app_cache = [(''k'', 7, 100)],
               env = \<lparr>logged = [(INFO, ''Cache hit para k'')], world = 0\<rparr>\<rparr>)"
    using cache_hit_within_ttl [where st = ?sa and k = "''k''" and v = 7 and t = 100
        and now = 103 and ttl = 10 and f = counting]
    by (simp add: logger_info_def)
  have B: "\<exists>st'. get_or_compute ''k'' 10 100 counting ?sb = (Inr 0, st') \<and>
          world (env st') = 1 \<and>
          map_of (app_cache st') ''k'' = Some (0, 100) \<and>
          fst (get_or_compute ''k'' 10 105 counting st') = Inr 0 \<and>
          world (env (snd (get_or_compute ''k'' 10 105 counting st'))) = 1"
    using cache_hit_within_ttl [where st = ?sb and k = "''k''" and now = 100 and ttl = 10
        and f = counting and w = 0 and e' = ?e1 and later = 105]
    by (simp add: is_hit_def counting_def entry_survives_def)
  have absent: "''new'' \<notin> fst ` set late_cache" by (rule new_not_in_late_cache)
  have "map_of late_cache ''new'' = None" using absent by (simp add: map_of_eq_None_iff)
  then have miss: "\<not> is_hit (app_cache ?sc) ''new'' 10 5" by (simp add: is_hit_def)
  have ret: "counting (env ?sc) = (Inr 0, ?e1)" by (simp add: counting_def)
  have d: "distinct (map fst (app_cache ?sc))"
    by (simp add: late_cache_keys distinct_map inj_on_def example_key_inj)
  have late5: "\<forall>x \<in> set late_cache. 5 < snd (snd x)"
    using late_cache_stamps by fastforce
  have gone: "\<not> entry_survives (app_cache ?sc) ''new'' 0 5"
    using absent late5 by (intro late_entry_not_survives) (simp_all add: length_late_cache)
  have C: "fst (get_or_compute ''new'' 10 6 counting (snd (get_or_compute ''new'' 10 5 counting ?sc))) =
      fst (counting (env (snd (get_or_compute ''new'' 10 5 counting ?sc))))"
    using cache_hit_within_ttl [where st = ?sc and k = "''new''" and now = 5 and ttl = 10
        and f = counting and w = 0 and e' = ?e1 and later = 6] miss ret d gone
    by (simp add: compute_and_store_fst)
  show ?thesis using A B C by blast
qed

section \<open>Routes: error responses and keyword arguments\<close>

lemma handle_errors_raises:
  "fst (handle_errors fname g a kw e) = Inl x \<Longrightarrow>
   (\<exists>n. x = NonException n) \<and> fst (g a kw e) = Inl x"
  by (cases "g a kw e") (auto simp: handle_errors_def split: sum.splits exn.splits)

lemma handle_errors_not_found:
  "fst (g a kw e) = Inl NotFound \<Longrightarrow>
   fst (handle_errors fname g a kw e) = Inr not_found_response"
  by (cases "g a kw e") (auto simp: handle_errors_def)

lemma handle_errors_exception:
  "f a kw e = (Inl (OtherException msg), e') \<Longrightarrow>
   handle_errors fname f a kw e =
     (Inr server_error_response, logger_error (''Error en '' @ fname @ '': '' @ msg) e')"
  by (simp add: handle_errors_def)

lemma handle_errors_non_exception:
  "f a kw e = (Inl (NonException n), e') \<Longrightarrow>
   handle_errors fname f a kw e = (Inl (NonException n), e')"
  by (simp add: handle_errors_def)

text \<open>
  Claim C9 (error responses are cached at the route level) does not hold as stated: the
  function the cache calls can raise. \<^verbatim>\<open>handle_errors\<close> catches \<^verbatim>\<open>Exception\<close> only, so a
  handler that ends in \<^verbatim>\<open>sys.exit()\<close> raises through it and through the cache, and
  nothing is stored.
\<close>

theorem handle_errors_raises_counterexample:
  "fst (handle_errors ''home'' exiting [] () \<lparr>logged = [], world = 0\<rparr>) =
     Inl (NonException ''SystemExit'') \<and>
   fst (cached_route 600 ''home'' repr_digit exiting home_request 0 [] ()
          \<lparr>app_cache = [], env = \<lparr>logged = [], world = 0\<rparr>\<rparr>) =
     Inl (NonException ''SystemExit'') \<and>
   app_cache (snd (cached_route 600 ''home'' repr_digit exiting home_request 0 [] ()
          \<lparr>app_cache = [], env = \<lparr>logged = [], world = 0\<rparr>\<rparr>)) = []"
  by (simp add: cached_route_def cache_response_def get_or_compute_def compute_and_store_def
      handle_errors_def exiting_def raising_def)

text \<open>
  Claim C9 as amended. \<^verbatim>\<open>handle_errors\<close> raises only what is not an \<^verbatim>\<open>Exception\<close>, and
  then what the handler raised; it turns \<^verbatim>\<open>NotFound\<close> into the 404 response and any
  other \<^verbatim>\<open>Exception\<close> into the 500 response, whose fields and status are spelled out
  below. So for a route that stacks \<^verbatim>\<open>cache_response\<close> outside \<^verbatim>\<open>handle_errors\<close>: when
  the handler raises an \<^verbatim>\<open>Exception\<close> on a miss and the cleanup does not remove the
  entry just stored (\<open>entry_survives\<close>, which every dictionary with \<open>cache_ok\<close>
  gives), the call returns the 500 response and stores it under the key, and a second
  call under the same key at a reading \<open>later\<close> with \<open>later - now < ttl\<close> returns the
  stored 500 response and changes the state by one log record only, whatever the
  handler \<open>f'\<close> would do: the handler is not invoked again. When the handler raises
  what is not an \<^verbatim>\<open>Exception\<close> on a miss, the call raises it and stores nothing.
\<close>

theorem error_response_is_cached:
  "(server_error_response :: 'v response) =
     JsonWithStatus [(''error'', ''Error interno del servidor''),
                     (''message'', ''Ocurri'' @ [CHR 0xC3, CHR 0xB3] @ '' un error inesperado'')] 500 \<and>
   (fst (handle_errors fname g a kw e) = Inl x \<longrightarrow>
      (\<exists>n. x = NonException n) \<and> fst (g a kw e) = Inl x) \<and>
   (fst (g a kw e) = Inl NotFound \<longrightarrow>
      fst (handle_errors fname g a kw e) =
        Inr (JsonWithStatus [(''error'', ''Recurso no encontrado''),
                             (''message'', ''La ruta solicitada no existe'')] 404)) \<and>
   (fst (g a kw e) = Inl (OtherException m) \<longrightarrow>
      fst (handle_errors fname g a kw e) = Inr server_error_response) \<and>
   (\<not> is_hit (app_cache st) (cache_key fname req (str_tuple repr args)) ttl now \<and>
    f args kwargs (env st) = (Inl (OtherException msg), e') \<and>
    entry_survives (app_cache st) (cache_key fname req (str_tuple repr args))
      (server_error_response :: 'v response) now \<and>
    later - now < ttl \<longrightarrow>
      (\<exists>st'. cached_route ttl fname repr f req now args kwargs st =
                (Inr server_error_response, st') \<and>
             map_of (app_cache st') (cache_key fname req (str_tuple repr args)) =
                Some (server_error_response, now) \<and>
             world (env st') = world e' \<and>
             cached_route ttl fname repr f' req later args kwargs st' =
                (Inr server_error_response,
                 st'\<lparr>env := logger_info
                   (''Cache hit para '' @ cache_key fname req (str_tuple repr args)) (env st')\<rparr>))) \<and>
   (\<not> is_hit (app_cache st) (cache_key fname req (str_tuple repr args)) ttl now \<and>
    f args kwargs (env st) = (Inl (NonException n), e') \<longrightarrow>
      cached_route ttl fname repr f req now args kwargs st =
        (Inl (NonException n), st\<lparr>env := e'\<rparr>)) \<and>
   (cache_ok now (app_cache st) \<longrightarrow>
      entry_survives (app_cache st) (cache_key fname req (str_tuple repr args))
        (server_error_response :: 'v response) now)"
proof (intro conjI impI)
  show "(server_error_response :: 'v response) =
     JsonWithStatus [(''error'', ''Error interno del servidor''),
                     (''message'', ''Ocurri'' @ [CHR 0xC3, CHR 0xB3] @ '' un error inesperado'')] 500"
    by (simp add: server_error_response_def)
next
  assume r: "fst (handle_errors fname g a kw e) = Inl x"
  show "\<exists>n. x = NonException n"
    using handle_errors_raises [OF r] by (rule conjunct1)
  show "fst (g a kw e) = Inl x"
    using handle_errors_raises [OF r] by (rule conjunct2)
next
  assume "fst (g a kw e) = Inl NotFound"
  then show "fst (handle_errors fname g a kw e) =
        Inr (JsonWithStatus [(''error'', ''Recurso no encontrado''),
                             (''message'', ''La ruta solicitada no existe'')] 404)"
    by (simp add: handle_errors_not_found not_found_response_def)
next
  assume "fst (g a kw e) = Inl (OtherException m)"
  then have "g a kw e = (Inl (OtherException m), snd (g a kw e))"
    by (cases "g a kw e") simp
  from handle_errors_exception [where f = g and a = a and kw = kw and e = e, OF this]
  show "fst (handle_errors fname g a kw e) = Inr server_error_response" by simp
next
  let ?k = "cache_key fname req (str_tuple repr args)"
  let ?e1 = "logger_error (''Error en '' @ fname @ '': '' @ msg) e'"
  assume a: "\<not> is_hit (app_cache st) ?k ttl now \<and>
    f args kwargs (env st) = (Inl (OtherException msg), e') \<and>
    entry_survives (app_cache st) ?k (server_error_response :: 'v response) now \<and>
    later - now < ttl"
  then have h: "handle_errors fname f args kwargs (env st) = (Inr server_error_response, ?e1)"
    by (simp add: handle_errors_exception)
  from a have miss: "\<not> is_hit (app_cache st) ?k ttl now"
    and keep: "entry_survives (app_cache st) ?k (server_error_response :: 'v response) now"
    and win: "later - now < ttl"
    by simp_all
  from miss_then_hit_if_survives [where f = "handle_errors fname f args kwargs" and st = st
      and g = "handle_errors fname f' args kwargs", OF miss h keep win]
  obtain st' where
    "get_or_compute ?k ttl now (handle_errors fname f args kwargs) st =
       (Inr server_error_response, st')"
    "world (env st') = world ?e1"
    "map_of (app_cache st') ?k = Some (server_error_response, now)"
    "get_or_compute ?k ttl later (handle_errors fname f' args kwargs) st' =
       (Inr server_error_response, st'\<lparr>env := logger_info (''Cache hit para '' @ ?k) (env st')\<rparr>)"
    by blast
  then show "\<exists>st'. cached_route ttl fname repr f req now args kwargs st =
                (Inr server_error_response, st') \<and>
             map_of (app_cache st') ?k = Some (server_error_response, now) \<and>
             world (env st') = world e' \<and>
             cached_route ttl fname repr f' req later args kwargs st' =
                (Inr server_error_response,
                 st'\<lparr>env := logger_info (''Cache hit para '' @ ?k) (env st')\<rparr>)"
    by (intro exI [of _ st']) (simp add: cached_route_def cache_response_def logger_error_def)
next
  let ?k = "cache_key fname req (str_tuple repr args)"
  assume a: "\<not> is_hit (app_cache st) ?k ttl now \<and>
    f args kwargs (env st) = (Inl (NonException n), e')"
  then have "handle_errors fname f args kwargs (env st) = (Inl (NonException n), e')"
    by (simp add: handle_errors_non_exception)
  then show "cached_route ttl fname repr f req now args kwargs st =
        (Inl (NonException n), st\<lparr>env := e'\<rparr>)"
    using a by (simp add: cached_route_def cache_response_def get_or_compute_miss
        compute_and_store_raise)
next
  assume "cache_ok now (app_cache st)"
  then show "entry_survives (app_cache st) (cache_key fname req (str_tuple repr args))
        (server_error_response :: 'v response) now"
    by (rule cache_ok_survives)
qed

theorem error_response_is_cached_witness:
  "\<exists>st'. cached_route 600 ''home'' repr_digit (failing ''boom'') home_request 0 [] ()
            \<lparr>app_cache = [], env = \<lparr>logged = [], world = 0\<rparr>\<rparr> =
            (Inr (JsonWithStatus [(''error'', ''Error interno del servidor''),
                     (''message'', ''Ocurri'' @ [CHR 0xC3, CHR 0xB3] @ '' un error inesperado'')] 500),
             st') \<and>
         map_of (app_cache st') ''home_GET_/_()'' =
            Some (JsonWithStatus [(''error'', ''Error interno del servidor''),
                     (''message'', ''Ocurri'' @ [CHR 0xC3, CHR 0xB3] @ '' un error inesperado'')] 500,
                  0) \<and>
         world (env st') = 1 \<and>
         fst (cached_route 600 ''home'' repr_digit (failing ''boom'') home_request 100 [] () st') =
            Inr (JsonWithStatus [(''error'', ''Error interno del servidor''),
                     (''message'', ''Ocurri'' @ [CHR 0xC3, CHR 0xB3] @ '' un error inesperado'')] 500) \<and>
         world (env (snd (cached_route 600 ''home'' repr_digit (failing ''boom'')
            home_request 100 [] () st'))) = 1"
proof -
  let ?st = "\<lparr>app_cache = [], env = \<lparr>logged = [], world = 0::nat\<rparr>\<rparr> :: (nat response, nat) state"
  let ?k = "cache_key ''home'' home_request (str_tuple repr_digit [])"
  let ?e = "\<lparr>logged = [], world = 1::nat\<rparr>"
  let ?R = "JsonWithStatus [(''error'', ''Error interno del servidor''),
      (''message'', ''Ocurri'' @ [CHR 0xC3, CHR 0xB3] @ '' un error inesperado'')] 500 :: nat response"
  have k: "?k = ''home_GET_/_()''"
    by (simp add: cache_key_def home_request_def str_tuple_def)
  have P: "\<not> is_hit (app_cache ?st) ?k 600 0 \<and>
      failing ''boom'' [] () (env ?st) = (Inl (OtherException ''boom''), ?e) \<and>
      entry_survives (app_cache ?st) ?k (server_error_response :: nat response) 0 \<and>
      (100::real) - 0 < 600"
    by (simp add: is_hit_def failing_def raising_def entry_survives_def)
  note T = error_response_is_cached [where f = "failing ''boom''" and f' = "failing ''boom''"
      and st = ?st and args = "[]" and kwargs = "()" and repr = repr_digit and req = home_request
      and fname = "''home''" and ttl = 600 and now = 0 and later = 100 and msg = "''boom''"
      and e' = ?e and g = "failing ''boom''" and a = "[]" and kw = "()" and e = ?e
      and x = NotFound and m = "''boom''" and n = "''SystemExit''"]
  have R: "(server_error_response :: nat response) = ?R" by (rule T [THEN conjunct1])
  note M = T [THEN conjunct2, THEN conjunct2, THEN conjunct2, THEN conjunct2, THEN conjunct1,
      THEN mp, OF P]
  then obtain st' where st':
    "cached_route 600 ''home'' repr_digit (failing ''boom'') home_request 0 [] () ?st =
       (Inr server_error_response, st')"
    "map_of (app_cache st') ?k = Some (server_error_response, 0)"
    "world (env st') = world ?e"
    "cached_route 600 ''home'' repr_digit (failing ''boom'') home_request 100 [] () st' =
       (Inr server_error_response, st'\<lparr>env := logger_info (''Cache hit para '' @ ?k) (env st')\<rparr>)"
    by blast
  have 1: "cached_route 600 ''home'' repr_digit (failing ''boom'') home_request 0 [] () ?st =
      (Inr ?R, st')"
    using st'(1) unfolding R .
  have 2: "map_of (app_cache st') ''home_GET_/_()'' = Some (?R, 0)"
    using st'(2) unfolding k R .
  have 3: "world (env st') = 1" using st'(3) by simp
  have 4: "fst (cached_route 600 ''home'' repr_digit (failing ''boom'') home_request 100 [] () st') =
      Inr ?R"
    unfolding st'(4) R by simp
  have 5: "world (env (snd (cached_route 600 ''home'' repr_digit (failing ''boom'')
      home_request 100 [] () st'))) = 1"
    unfolding st'(4) using st'(3) by (simp add: logger_info_def)
  show ?thesis using 1 2 3 4 5 by blast
qed






end
